theory Spec2Isabelle
  imports Main "HOL-Library.Multiset" "HOL-Library.AList" "HOL-Library.Word"
begin

unbundle bit_operations_syntax

section \<open>AugustusCGP pipeline: window planning, regrouping and joining\<close>

text \<open>
  A shallow embedding of \<^verbatim>\<open>src/cat/augustus_cgp.py\<close> (Python 2). Python integers are
  unbounded and are modelled by \<^typ>\<open>int\<close>; the restriction of \<^verbatim>\<open>xrange\<close>
  arguments to the range of a C long is outside the model. Exceptions are values of
  the type \<open>error\<close>.
\<close>

datatype error = ValueError | IOError | NoSuchFile

subsection \<open>The built-in \<^verbatim>\<open>xrange\<close>\<close>

text \<open>
  \<^verbatim>\<open>xrange(start, stop, step)\<close> raises ValueError for a zero step, counts upwards while
  the value is below \<open>stop\<close> for a positive step, and downwards while the value is
  above \<open>stop\<close> for a negative step.
\<close>

function xrange_up :: "int \<Rightarrow> int \<Rightarrow> int \<Rightarrow> int list" where
  "xrange_up i stop step =
     (if 0 < step \<and> i < stop then i # xrange_up (i + step) stop step else [])"
  by pat_completeness auto
termination
  by (relation "measure (\<lambda>(i, stop, step). nat (stop - i))") auto

function xrange_down :: "int \<Rightarrow> int \<Rightarrow> int \<Rightarrow> int list" where
  "xrange_down i stop step =
     (if step < 0 \<and> stop < i then i # xrange_down (i + step) stop step else [])"
  by pat_completeness auto
termination
  by (relation "measure (\<lambda>(i, stop, step). nat (i - stop))") auto

declare xrange_up.simps [simp del] xrange_down.simps [simp del]

definition xrange :: "int \<Rightarrow> int \<Rightarrow> int \<Rightarrow> error + int list" where
  "xrange start stop step =
     (if step = 0 then Inl ValueError
      else if 0 < step then Inr (xrange_up start stop step)
      else Inr (xrange_down start stop step))"

subsection \<open>\<^verbatim>\<open>setup\<close>: the planning loop\<close>

text \<open>
  The fields of \<^verbatim>\<open>args\<close> that the modelled functions read. A window is identified
  by the triple \<^verbatim>\<open>(chrom, start, chunksize)\<close>, which is also the key of the
  dictionaries built by \<^verbatim>\<open>merge_results\<close>.
\<close>

record args =
  chunksize :: int
  overlap :: int
  genomes :: "string list"

type_synonym chunk_key = "string \<times> int \<times> int"

text \<open>
  \<^verbatim>\<open>chunksize = args.chunksize if start + args.chunksize <= chrom_size else chrom_size - start\<close>
\<close>

definition chunk_len :: "args \<Rightarrow> int \<Rightarrow> int \<Rightarrow> int" where
  "chunk_len a chrom_size start =
     (if start + chunksize a \<le> chrom_size then chunksize a else chrom_size - start)"

text \<open>
  The inner loop: one extraction job with a prediction follow-on per start offset, and
  one entry appended to \<^verbatim>\<open>results\<close>.
\<close>

primrec chunk_loop :: "args \<Rightarrow> string \<Rightarrow> int \<Rightarrow> int list \<Rightarrow> chunk_key list \<Rightarrow> chunk_key list" where
  "chunk_loop a chrom chrom_size [] results = results"
| "chunk_loop a chrom chrom_size (start # starts) results =
     chunk_loop a chrom chrom_size starts (results @ [(chrom, start, chunk_len a chrom_size start)])"

text \<open>The windows of one chromosome, as the inner loop produces them.\<close>

definition chrom_windows :: "args \<Rightarrow> string \<Rightarrow> int \<Rightarrow> error + chunk_key list" where
  "chrom_windows a chrom chrom_size =
     (case xrange 0 chrom_size (chunksize a - overlap a) of
        Inl e \<Rightarrow> Inl e
      | Inr starts \<Rightarrow> Inr (chunk_loop a chrom chrom_size starts []))"

text \<open>The start offsets of one chromosome when the step is positive.\<close>

definition starts_of :: "args \<Rightarrow> int \<Rightarrow> int list" where
  "starts_of a L = xrange_up 0 L (chunksize a - overlap a)"

text \<open>
  The outer loop over the chromosome-size table. The result is the list of windows
  whose jobs were added, together with the exception that stopped the loop, if any.
\<close>

fun setup_loop :: "args \<Rightarrow> (string \<times> int) list \<Rightarrow> chunk_key list \<Rightarrow> chunk_key list \<times> error option" where
  "setup_loop a [] results = (results, None)"
| "setup_loop a ((chrom, chrom_size) # rest) results =
     (case xrange 0 chrom_size (chunksize a - overlap a) of
        Inl e \<Rightarrow> (results, Some e)
      | Inr starts \<Rightarrow> setup_loop a rest (chunk_loop a chrom chrom_size starts results))"

text \<open>
  The number of coordinates two windows share: the size of the intersection of their
  half-open intervals.
\<close>

definition window_start :: "chunk_key \<Rightarrow> int" where
  "window_start w = fst (snd w)"

definition window_len :: "chunk_key \<Rightarrow> int" where
  "window_len w = snd (snd w)"

definition window_end :: "chunk_key \<Rightarrow> int" where
  "window_end w = window_start w + window_len w"

definition shared :: "chunk_key \<Rightarrow> chunk_key \<Rightarrow> int" where
  "shared w1 w2 =
     max 0 (min (window_end w1) (window_end w2) - max (window_start w1) (window_start w2))"

definition covered :: "chunk_key list \<Rightarrow> int set" where
  "covered ws = (\<Union>w \<in> set ws. {window_start w ..< window_end w})"

subsection \<open>Python dictionaries\<close>

text \<open>
  A \<^verbatim>\<open>dict\<close> is modelled by its entries in insertion order, with pairwise different
  keys. \<^verbatim>\<open>d[k] = v\<close> replaces the value of a key that is present and appends a new
  key otherwise.

  Python 2 leaves the order in which a \<^verbatim>\<open>dict\<close> is iterated unspecified: it is the
  order of the slots of the hash table, not the order of insertion and not a sorted
  order. The model takes it as a parameter \<open>ord\<close>, a function from the keys in
  insertion order to the keys in iteration order.
\<close>

type_synonym ('k, 'v) dict = "('k \<times> 'v) list"

type_synonym 'k iter_order = "'k list \<Rightarrow> 'k list"

definition dict_set :: "('k, 'v) dict \<Rightarrow> 'k \<Rightarrow> 'v \<Rightarrow> ('k, 'v) dict" where
  "dict_set d k v = AList.update k v d"

definition iteritems :: "'k iter_order \<Rightarrow> ('k, 'v) dict \<Rightarrow> ('k \<times> 'v) list" where
  "iteritems ord d = List.map_filter (\<lambda>k. map_option (Pair k) (map_of d k)) (ord (map fst d))"

text \<open>An iteration order enumerates every key once.\<close>

definition valid_order :: "'k iter_order \<Rightarrow> bool" where
  "valid_order ord = (\<forall>ks. distinct ks \<longrightarrow> mset (ord ks) = mset ks)"

text \<open>
  \<^verbatim>\<open>collections.defaultdict(dict)\<close>: reading a missing key yields a new empty
  dictionary, which is stored under the key.
\<close>

definition defaultdict_get :: "('k, ('j, 'v) dict) dict \<Rightarrow> 'k \<Rightarrow> ('j, 'v) dict" where
  "defaultdict_get d k = (case map_of d k of None \<Rightarrow> [] | Some inner \<Rightarrow> inner)"

subsection \<open>The iteration order of CPython 2.7\<close>

text \<open>
  One iteration order, for the keys \<^verbatim>\<open>(chrom, start, chunksize)\<close>: that of CPython 2.7
  on a 64-bit build without hash randomisation, for a dictionary of at most five keys
  whose hashes select pairwise different slots of the initial table of eight slots.
  A key is then stored in the slot \<^verbatim>\<open>hash & 7\<close>, and iteration visits the slots in
  increasing order. The hash of a tuple combines the hashes of its items
  (\<^verbatim>\<open>tuplehash\<close>), the hash of a string is \<^verbatim>\<open>string_hash\<close> and the hash of an
  integer in the range of a C long is the integer itself, with \<open>-2\<close> for \<open>-1\<close>.
\<close>

definition string_hash :: "string \<Rightarrow> 64 word" where
  "string_hash s =
     (if s = [] then 0
      else let x = fold (\<lambda>c x. (1000003 * x) XOR of_char c) s (push_bit 7 (of_char (hd s)));
               y = x XOR of_nat (length s)
           in if y = - 1 then - 2 else y)"

definition int_hash :: "int \<Rightarrow> 64 word" where
  "int_hash i = (if i = - 1 then - 2 else word_of_int i)"

fun tuplehash_loop :: "64 word \<Rightarrow> 64 word \<Rightarrow> 64 word list \<Rightarrow> 64 word" where
  "tuplehash_loop x m [] = x"
| "tuplehash_loop x m (y # ys) =
     tuplehash_loop ((x XOR y) * m) (m + 82520 + 2 * of_nat (length ys)) ys"

definition tuplehash :: "64 word list \<Rightarrow> 64 word" where
  "tuplehash ys = (let x = tuplehash_loop 0x345678 1000003 ys + 97531 in if x = - 1 then - 2 else x)"

definition chunk_key_slot :: "chunk_key \<Rightarrow> nat" where
  "chunk_key_slot k =
     unat (tuplehash [string_hash (fst k), int_hash (fst (snd k)), int_hash (snd (snd k))] AND 7)"

definition slot_order :: "chunk_key iter_order" where
  "slot_order ks = sort_key chunk_key_slot ks"

subsection \<open>The job store\<close>

text \<open>
  The job store holds the contents of the files written to it; a \<^verbatim>\<open>FileID\<close> is the
  position of a file. Reading an unknown \<^verbatim>\<open>FileID\<close> fails.
\<close>

type_synonym file_id = nat

type_synonym job_store = "string list"

definition writeGlobalFile :: "job_store \<Rightarrow> string \<Rightarrow> job_store \<times> file_id" where
  "writeGlobalFile store content = (store @ [content], length store)"

definition readGlobalFile :: "job_store \<Rightarrow> file_id \<Rightarrow> error + string" where
  "readGlobalFile store fid = (if fid < length store then Inr (store ! fid) else Inl NoSuchFile)"

subsection \<open>\<^verbatim>\<open>cgp\<close>: the prediction task\<close>

text \<open>
  AugustusCGP is an external program. Its run is the parameter \<open>aug\<close>: it either fails, and
  \<^verbatim>\<open>run_proc\<close> raises, or leaves the files of the working directory and the text of
  its standard output. Afterwards the standard output is written to the job store, and
  the dictionary comprehension writes the file \<^verbatim>\<open>genome + '.cgp.gff'\<close> of every genome
  of \<^verbatim>\<open>args.genomes\<close>; writing a file that does not exist raises.
\<close>

type_synonym gff_chunks = "(string, file_id) dict"

fun write_gffs :: "(string \<rightharpoonup> string) \<Rightarrow> string list \<Rightarrow> job_store \<Rightarrow> gff_chunks
                     \<Rightarrow> error + (gff_chunks \<times> job_store)" where
  "write_gffs cwd [] store d = Inr (d, store)"
| "write_gffs cwd (genome # rest) store d =
     (case cwd (genome @ ''.cgp.gff'') of
        None \<Rightarrow> Inl IOError
      | Some content \<Rightarrow>
          (case writeGlobalFile store content of
             (store', fid) \<Rightarrow> write_gffs cwd rest store' (dict_set d genome fid)))"

definition cgp :: "args \<Rightarrow> error + ((string \<rightharpoonup> string) \<times> string) \<Rightarrow> job_store
                     \<Rightarrow> error + ((gff_chunks \<times> file_id) \<times> job_store)" where
  "cgp a aug store =
     (case aug of
        Inl e \<Rightarrow> Inl e
      | Inr (cwd, out) \<Rightarrow>
          (case writeGlobalFile store out of
             (store1, stdout_file_id) \<Rightarrow>
               (case write_gffs cwd (genomes a) store1 [] of
                  Inl e \<Rightarrow> Inl e
                | Inr (d, store2) \<Rightarrow> Inr ((d, stdout_file_id), store2))))"

text \<open>
  The invariant of the dictionary comprehension: every entry points to a file of the
  job store that holds the content of the genome's result file.
\<close>

definition stored :: "(string \<rightharpoonup> string) \<Rightarrow> job_store \<Rightarrow> gff_chunks \<Rightarrow> bool" where
  "stored cwd store d =
     (\<forall>e \<in> set d. snd e < length store \<and> cwd (fst e @ ''.cgp.gff'') = Some (store ! snd e))"

subsection \<open>\<^verbatim>\<open>merge_results\<close>: regrouping by genome\<close>

text \<open>
  An entry of \<^verbatim>\<open>results\<close> is a window with the resolved return value of its prediction
  job. The loop fills \<^verbatim>\<open>stdout_file_ids\<close> and \<^verbatim>\<open>gff_chunks_by_genome\<close>, both keyed by
  \<^verbatim>\<open>(chrom, start, chunksize)\<close>.
\<close>

type_synonym result = "chunk_key \<times> gff_chunks \<times> file_id"

type_synonym chunk_files = "(chunk_key, file_id) dict"

primrec regroup_genomes :: "chunk_key \<Rightarrow> (string \<times> file_id) list \<Rightarrow> (string, chunk_files) dict
                              \<Rightarrow> (string, chunk_files) dict" where
  "regroup_genomes key [] by_genome = by_genome"
| "regroup_genomes key (entry # rest) by_genome =
     regroup_genomes key rest
       (dict_set by_genome (fst entry)
          (dict_set (defaultdict_get by_genome (fst entry)) key (snd entry)))"

primrec regroup :: "string iter_order \<Rightarrow> result list \<Rightarrow> (string, chunk_files) dict \<times> chunk_files
                      \<Rightarrow> (string, chunk_files) dict \<times> chunk_files" where
  "regroup gord [] state = state"
| "regroup gord (r # rest) state =
     regroup gord rest
       (regroup_genomes (fst r) (iteritems gord (fst (snd r))) (fst state),
        dict_set (snd state) (fst r) (snd (snd r)))"

definition gff_chunks_by_genome :: "string iter_order \<Rightarrow> result list \<Rightarrow> (string, chunk_files) dict" where
  "gff_chunks_by_genome gord results = fst (regroup gord results ([], []))"

definition stdout_file_ids :: "string iter_order \<Rightarrow> result list \<Rightarrow> chunk_files" where
  "stdout_file_ids gord results = snd (regroup gord results ([], []))"

text \<open>The chunks of one genome, in the order of \<^verbatim>\<open>results\<close>.\<close>

definition chunks_of :: "string \<Rightarrow> result list \<Rightarrow> (chunk_key \<times> file_id) list" where
  "chunks_of genome results =
     List.map_filter (\<lambda>r. map_option (Pair (fst r)) (map_of (fst (snd r)) genome)) results"

subsection \<open>\<^verbatim>\<open>join_genes\<close> and the run-level log: concatenation with markers\<close>

text \<open>\<^verbatim>\<open>str\<close> of an integer, as \<^verbatim>\<open>format\<close> prints it.\<close>

fun digits :: "nat \<Rightarrow> string" where
  "digits n =
     (if n < 10 then [''0123456789'' ! n] else digits (n div 10) @ [''0123456789'' ! (n mod 10)])"

declare digits.simps [simp del]

definition str_int :: "int \<Rightarrow> string" where
  "str_int i = (if i < 0 then CHR ''-'' # digits (nat (- i)) else digits (nat i))"

text \<open>
  \<^verbatim>\<open>'## BEGIN CHUNK chrom: {} start: {} chunksize: {}\n'.format(chrom, start, chunksize)\<close>
\<close>

definition marker :: "chunk_key \<Rightarrow> string" where
  "marker k = ''## BEGIN CHUNK chrom: '' @ fst k @ '' start: '' @ str_int (fst (snd k))
                @ '' chunksize: '' @ str_int (snd (snd k)) @ [CHR 0x0A]"

text \<open>
  The loop of \<^verbatim>\<open>join_genes\<close> over \<^verbatim>\<open>gff_chunks.iteritems()\<close> and the loop of
  \<^verbatim>\<open>augustus_cgp\<close> over \<^verbatim>\<open>stdout_file_ids.iteritems()\<close> have the same body: write the
  marker line of the window, fetch the file from the job store, and copy its lines.
\<close>

fun write_chunks :: "job_store \<Rightarrow> (chunk_key \<times> file_id) list \<Rightarrow> string \<Rightarrow> error + string" where
  "write_chunks store [] out = Inr out"
| "write_chunks store ((key, fid) # rest) out =
     (case readGlobalFile store fid of
        Inl e \<Rightarrow> Inl e
      | Inr content \<Rightarrow> write_chunks store rest (out @ marker key @ content))"

text \<open>The raw concatenation file that \<^verbatim>\<open>join_genes\<close> writes for one genome.\<close>

definition join_genes_raw :: "chunk_key iter_order \<Rightarrow> job_store \<Rightarrow> chunk_files \<Rightarrow> error + string" where
  "join_genes_raw ord store gff_chunks = write_chunks store (iteritems ord gff_chunks) []"

text \<open>The file \<^verbatim>\<open>args.stdout_file\<close> that \<^verbatim>\<open>augustus_cgp\<close> writes.\<close>

definition stdout_log :: "chunk_key iter_order \<Rightarrow> job_store \<Rightarrow> chunk_files \<Rightarrow> error + string" where
  "stdout_log ord store ids = write_chunks store (iteritems ord ids) []"

text \<open>The block of one window in either file.\<close>

definition block :: "job_store \<Rightarrow> chunk_key \<times> file_id \<Rightarrow> string" where
  "block store e = marker (fst e) @ store ! snd e"

subsection \<open>The job graph built by \<^verbatim>\<open>setup\<close>\<close>

text \<open>
  The jobs that \<^verbatim>\<open>setup\<close> adds, each with the jobs it is declared to wait for:
  \<^item> \<^verbatim>\<open>j = job.addChildJobFn(hal2maf, ...)\<close>: a child of the setup job;
  \<^item> \<^verbatim>\<open>cgp_job = j.addFollowOnJobFn(cgp, tree, maf_chunk, ...)\<close>: a follow-on of
    \<^verbatim>\<open>j\<close>, whose argument \<^verbatim>\<open>maf_chunk\<close> is the promise \<^verbatim>\<open>j.rv()\<close>;
  \<^item> \<^verbatim>\<open>job.addFollowOnJobFn(merge_results, results)\<close>: a follow-on of the setup job,
    whose argument \<^verbatim>\<open>results\<close> holds the promise \<^verbatim>\<open>cgp_job.rv()\<close> of every window.
\<close>

datatype job = Setup | Hal2maf chunk_key | Cgp chunk_key | MergeResults

type_synonym job_graph = "(job \<times> job list) list"

definition chain :: "chunk_key \<Rightarrow> job_graph" where
  "chain w = [(Hal2maf w, [Setup]), (Cgp w, [Hal2maf w])]"

definition setup_jobs :: "chunk_key list \<Rightarrow> job_graph" where
  "setup_jobs ws = concat (map chain ws) @ [(MergeResults, Setup # map Cgp ws)]"

definition setup_fn :: "args \<Rightarrow> (string \<times> int) list \<Rightarrow> error + job_graph" where
  "setup_fn a table =
     (case setup_loop a table [] of
        (ws, Some e) \<Rightarrow> Inl e
      | (ws, None) \<Rightarrow> Inr (setup_jobs ws))"

text \<open>
  Modelled from the spec: the scheduler that runs the job graph (the Toil library, which
  is not part of the sources). Its rule is that of sections 3 and 4.2 of the
  specification: a job is not started before all the jobs it is declared to wait for
  have resolved. A run is a sequence of events, in any interleaving; an event that the
  scheduler does not allow ends the run with \<open>None\<close>. A job that fails never
  resolves.
\<close>

datatype event = Start job | Resolve job

record run_state =
  started :: "job set"
  resolved :: "job set"

definition eligible :: "job_graph \<Rightarrow> run_state \<Rightarrow> job \<Rightarrow> bool" where
  "eligible G s j =
     (j \<notin> started s \<and> j \<in> fst ` set G
      \<and> (\<forall>d \<in> set G. fst d = j \<longrightarrow> set (snd d) \<subseteq> resolved s))"

fun exec :: "job_graph \<Rightarrow> run_state \<Rightarrow> event \<Rightarrow> run_state option" where
  "exec G s (Start j) =
     (if eligible G s j then Some (s\<lparr>started := insert j (started s)\<rparr>) else None)"
| "exec G s (Resolve j) =
     (if j \<in> started s then Some (s\<lparr>resolved := insert j (resolved s)\<rparr>) else None)"

fun run_jobs :: "job_graph \<Rightarrow> run_state \<Rightarrow> event list \<Rightarrow> run_state option" where
  "run_jobs G s [] = Some s"
| "run_jobs G s (ev # evs) =
     (case exec G s ev of None \<Rightarrow> None | Some s' \<Rightarrow> run_jobs G s' evs)"

text \<open>When the graph is handed to the scheduler, the setup job has run.\<close>

definition after_setup :: run_state where
  "after_setup = \<lparr>started = {Setup}, resolved = {Setup}\<rparr>"

text \<open>
  The invariant of a run: a resolved job was started, and every started job other
  than the setup job is declared and all the jobs it waits for have resolved.
\<close>

definition gated :: "job_graph \<Rightarrow> run_state \<Rightarrow> bool" where
  "gated G s =
     (resolved s \<subseteq> started s
      \<and> (\<forall>j \<in> started s. j = Setup \<or>
            (j \<in> fst ` set G \<and> (\<forall>d \<in> set G. fst d = j \<longrightarrow> set (snd d) \<subseteq> resolved s))))"

section \<open>Properties of the planning loop\<close>

lemma chunk_loop_map:
  "chunk_loop a chrom L starts results =
     results @ map (\<lambda>s. (chrom, s, chunk_len a L s)) starts"
  by (induction starts arbitrary: results) simp_all

lemma xrange_up_set:
  "0 < step \<Longrightarrow> set (xrange_up i stop step) = {x. i \<le> x \<and> x < stop \<and> step dvd (x - i)}"
proof (induction i stop step rule: xrange_up.induct)
  case (1 i stop step)
  show ?case
  proof (cases "i < stop")
    case False
    then show ?thesis by (subst xrange_up.simps) auto
  next
    case True
    have "{x. i \<le> x \<and> x < stop \<and> step dvd (x - i)} =
          insert i {x. i + step \<le> x \<and> x < stop \<and> step dvd (x - (i + step))}"
      (is "?A = insert i ?B")
    proof (intro set_eqI iffI)
      fix x assume "x \<in> ?A"
      then have x: "i \<le> x" "x < stop" "step dvd (x - i)" by auto
      show "x \<in> insert i ?B"
      proof (cases "x = i")
        case False
        from x(3) obtain k where k: "x - i = step * k" by (auto simp: dvd_def)
        with x(1) False \<open>0 < step\<close> have "0 < k"
          by (metis diff_gt_0_iff_gt less_le zero_less_mult_pos)
        then have "step * 1 \<le> step * k" using \<open>0 < step\<close> by (intro mult_left_mono) auto
        with k have "i + step \<le> x" by simp
        moreover have "step dvd (x - (i + step))"
          using x(3) by (metis diff_diff_eq dvd_diff dvd_refl)
        ultimately show ?thesis using x by simp
      qed simp
    next
      fix x assume "x \<in> insert i ?B"
      then show "x \<in> ?A"
      proof
        assume "x = i" with True show ?thesis by simp
      next
        assume "x \<in> ?B"
        then have "i + step \<le> x" "x < stop" "step dvd (x - (i + step))" by auto
        moreover from this(3) have "step dvd (x - i)"
          by (metis add_diff_cancel_left' diff_diff_eq dvd_add_triv_left_iff diff_add_cancel add.commute)
        ultimately show ?thesis using \<open>0 < step\<close> by simp
      qed
    qed
    moreover have "set (xrange_up i stop step) = insert i (set (xrange_up (i + step) stop step))"
      using True \<open>0 < step\<close> by (subst xrange_up.simps) simp
    ultimately show ?thesis using 1 True by simp
  qed
qed

lemma xrange_up_nth:
  "k < length (xrange_up i stop step) \<Longrightarrow> xrange_up i stop step ! k = i + int k * step"
proof (induction i stop step arbitrary: k rule: xrange_up.induct)
  case (1 i stop step)
  show ?case
  proof (cases "0 < step \<and> i < stop")
    case False
    with 1(2) show ?thesis by (subst (asm) xrange_up.simps) simp
  next
    case True
    then have unf: "xrange_up i stop step = i # xrange_up (i + step) stop step"
      by (subst xrange_up.simps) simp
    show ?thesis
    proof (cases k)
      case 0
      then show ?thesis by (simp add: unf)
    next
      case (Suc m)
      with 1(2) unf have "m < length (xrange_up (i + step) stop step)" by simp
      from 1(1)[OF True this] Suc show ?thesis by (simp add: unf algebra_simps)
    qed
  qed
qed

lemma xrange_up_last:
  "0 < step \<Longrightarrow> i < stop \<Longrightarrow> stop \<le> last (xrange_up i stop step) + step"
proof (induction i stop step rule: xrange_up.induct)
  case (1 i stop step)
  then have unf: "xrange_up i stop step = i # xrange_up (i + step) stop step"
    by (subst xrange_up.simps) simp
  show ?case
  proof (cases "i + step < stop")
    case True
    then have "xrange_up (i + step) stop step \<noteq> []"
      using 1(2) by (subst xrange_up.simps) simp
    with 1 True unf show ?thesis by simp
  next
    case False
    then have "xrange_up (i + step) stop step = []"
      by (subst xrange_up.simps) simp
    with False unf show ?thesis by simp
  qed
qed

lemma xrange_up_empty: "stop \<le> i \<Longrightarrow> xrange_up i stop step = []"
  by (subst xrange_up.simps) simp

lemma xrange_down_empty: "i \<le> stop \<Longrightarrow> xrange_down i stop step = []"
  by (subst xrange_down.simps) simp


lemma chrom_windows_pos:
  "overlap a < chunksize a \<Longrightarrow>
   chrom_windows a chrom L = Inr (map (\<lambda>s. (chrom, s, chunk_len a L s)) (starts_of a L))"
  by (simp add: chrom_windows_def xrange_def chunk_loop_map starts_of_def)

lemma starts_of_set:
  "overlap a < chunksize a \<Longrightarrow>
   set (starts_of a L) = {x. 0 \<le> x \<and> x < L \<and> (chunksize a - overlap a) dvd x}"
  by (simp add: starts_of_def xrange_up_set)

lemma starts_of_nth:
  "k < length (starts_of a L) \<Longrightarrow> starts_of a L ! k = int k * (chunksize a - overlap a)"
  using xrange_up_nth[of k 0 L "chunksize a - overlap a"] by (simp add: starts_of_def)

lemma starts_of_bounds:
  assumes "overlap a < chunksize a" "k < length (starts_of a L)"
  shows "0 \<le> starts_of a L ! k" "starts_of a L ! k < L"
proof -
  from assms(2) have "starts_of a L ! k \<in> set (starts_of a L)" by simp
  then show "0 \<le> starts_of a L ! k" "starts_of a L ! k < L"
    by (simp_all add: starts_of_set[OF assms(1)])
qed

lemma starts_of_last:
  assumes "overlap a < chunksize a" "starts_of a L \<noteq> []"
  shows "L \<le> last (starts_of a L) + (chunksize a - overlap a)"
proof -
  have "0 < L"
  proof (rule ccontr)
    assume "\<not> 0 < L"
    then have "starts_of a L = []" by (simp add: starts_of_def xrange_up_empty)
    with assms(2) show False by simp
  qed
  with assms(1) show ?thesis
    unfolding starts_of_def by (intro xrange_up_last) simp_all
qed

lemma covered_windows:
  assumes "0 \<le> overlap a" "overlap a < chunksize a"
  shows "covered (map (\<lambda>s. (chrom, s, chunk_len a L s)) (starts_of a L)) = {0..<L}"
    (is "covered ?ws = _")
proof (intro set_eqI iffI)
  fix x assume "x \<in> covered ?ws"
  then obtain s where s: "s \<in> set (starts_of a L)" "s \<le> x" "x < s + chunk_len a L s"
    by (auto simp: covered_def window_start_def window_end_def window_len_def)
  from s(1) have "0 \<le> s" "s < L" by (simp_all add: starts_of_set[OF assms(2)])
  moreover have "s + chunk_len a L s \<le> L" by (simp add: chunk_len_def)
  ultimately show "x \<in> {0..<L}" using s by simp
next
  fix x assume "x \<in> {0..<L}"
  then have x: "0 \<le> x" "x < L" by simp_all
  define step where "step = chunksize a - overlap a"
  have step: "0 < step" "step \<le> chunksize a" using assms by (simp_all add: step_def)
  define s where "s = x - x mod step"
  have "0 \<le> x mod step" "x mod step < step"
    using step(1) by simp_all
  moreover have "x mod step \<le> x"
    using x(1) step(1) by (simp add: zmod_le_nonneg_dividend)
  moreover have "step dvd s"
    by (simp add: s_def minus_mod_eq_mult_div)
  ultimately have s: "0 \<le> s" "s \<le> x" "x < s + step" "step dvd s"
    by (simp_all add: s_def)
  then have mem: "s \<in> set (starts_of a L)"
    using x(2) by (simp add: starts_of_set[OF assms(2)] step_def)
  have "x < s + chunk_len a L s"
    using s(3) step(2) x(2) by (simp add: chunk_len_def)
  with s(2) mem show "x \<in> covered ?ws"
    by (auto simp: covered_def window_start_def window_end_def window_len_def intro!: bexI[of _ s])
qed

lemma chunk_len_min: "chunk_len a L s = min (chunksize a) (L - s)"
  by (auto simp: chunk_len_def min_def)

lemma windows_nth:
  assumes "i < length (starts_of a L)"
  shows "map (\<lambda>s. (chrom, s, chunk_len a L s)) (starts_of a L) ! i =
         (chrom, int i * (chunksize a - overlap a), chunk_len a L (int i * (chunksize a - overlap a)))"
  using assms by (simp add: starts_of_nth)

lemma shared_windows:
  assumes "0 \<le> overlap a" "overlap a < chunksize a" "i < j" "j < length (starts_of a L)"
  shows "shared (map (\<lambda>s. (chrom, s, chunk_len a L s)) (starts_of a L) ! i)
                (map (\<lambda>s. (chrom, s, chunk_len a L s)) (starts_of a L) ! j) \<le> overlap a"
proof -
  define step where "step = chunksize a - overlap a"
  have step: "0 < step" using assms by (simp add: step_def)
  have "int (Suc i) \<le> int j" using assms(3) by simp
  then have "int (Suc i) * step \<le> int j * step"
    using step by (intro mult_right_mono) simp_all
  then have sj: "int i * step + step \<le> int j * step" by (simp add: algebra_simps)
  have li: "chunk_len a L (int i * step) \<le> chunksize a"
    by (simp add: chunk_len_min)
  from assms(3,4) have i: "i < length (starts_of a L)" by simp
  show ?thesis
    using sj li assms(1)
    unfolding windows_nth[OF i] windows_nth[OF assms(4)]
    by (simp add: shared_def window_end_def window_start_def window_len_def step_def)
qed

lemma example_windows:
  "chrom_windows \<lparr>chunksize = 300, overlap = 50, genomes = gs\<rparr> chrom 1000 =
     Inr [(chrom, 0, 300), (chrom, 250, 300), (chrom, 500, 300), (chrom, 750, 250)]"
  by (simp add: chrom_windows_def xrange_def xrange_up.simps chunk_len_def)

lemma example_covered:
  "covered [(chrom, 0, 300), (chrom, 250, 300), (chrom, 500, 300), (chrom, 750, 250)] = {0..<1000}"
  by (auto simp: covered_def window_start_def window_end_def window_len_def)

text \<open>
  Claim C1. For every chromosome length \<open>L \<ge> 0\<close>, chunk size \<open>C > 0\<close> and overlap
  \<open>0 \<le> O < C\<close> the planning loop returns a window sequence (it raises nothing) whose
  intervals \<open>[start, start + length)\<close> have exactly \<open>[0, L)\<close> as their union, so there
  is no gap; no window ends past \<open>L\<close>; no two windows share more than \<open>O\<close>
  coordinates; and for \<open>L = 0\<close> the sequence is empty.
\<close>

theorem planner_coverage:
  assumes "0 \<le> L" "0 < chunksize a" "0 \<le> overlap a" "overlap a < chunksize a"
  shows "\<exists>ws. chrom_windows a chrom L = Inr ws
            \<and> covered ws = {0..<L}
            \<and> (\<forall>w \<in> set ws. window_end w \<le> L)
            \<and> (\<forall>i j. i < j \<and> j < length ws \<longrightarrow> shared (ws ! i) (ws ! j) \<le> overlap a)
            \<and> (L = 0 \<longrightarrow> ws = [])"
proof -
  let ?ws = "map (\<lambda>s. (chrom, s, chunk_len a L s)) (starts_of a L)"
  have 1: "chrom_windows a chrom L = Inr ?ws"
    using assms(4) by (rule chrom_windows_pos)
  have 2: "covered ?ws = {0..<L}"
    using assms(3,4) by (rule covered_windows)
  have 3: "\<forall>w \<in> set ?ws. window_end w \<le> L"
    by (auto simp: window_end_def window_start_def window_len_def chunk_len_def
                   starts_of_set[OF assms(4)])
  have 4: "\<forall>i j. i < j \<and> j < length ?ws \<longrightarrow> shared (?ws ! i) (?ws ! j) \<le> overlap a"
    using shared_windows[OF assms(3,4)] by simp
  have 5: "L = 0 \<longrightarrow> ?ws = []"
    by (simp add: starts_of_def xrange_up_empty)
  from 1 2 3 4 5 show ?thesis by blast
qed

theorem planner_coverage_witness:
  "(0::int) \<le> 1000 \<and> (0::int) < 300 \<and> (0::int) \<le> 50 \<and> (50::int) < 300
   \<and> chrom_windows \<lparr>chunksize = 300, overlap = 50, genomes = []\<rparr> ''chr1'' 1000 =
       Inr [(''chr1'', 0, 300), (''chr1'', 250, 300), (''chr1'', 500, 300), (''chr1'', 750, 250)]
   \<and> covered [(''chr1'', 0, 300), (''chr1'', 250, 300), (''chr1'', 500, 300), (''chr1'', 750, 250)]
       = {0..<1000}
   \<and> window_end (''chr1'', 750, 250) \<le> 1000
   \<and> shared (''chr1'', 500, 300) (''chr1'', 750, 250) \<le> 50"
proof -
  let ?a = "\<lparr>chunksize = 300, overlap = 50, genomes = []\<rparr>"
  let ?ws = "[(''chr1'', 0, 300), (''chr1'', 250, 300), (''chr1'', 500, 300), (''chr1'', 750, 250)]"
  have ev: "chrom_windows ?a ''chr1'' 1000 = Inr ?ws"
    by (rule example_windows)
  from planner_coverage[of 1000 ?a "''chr1''"] ev
  have cov: "covered ?ws = {0..<1000}"
    and ends: "\<forall>w \<in> set ?ws. window_end w \<le> 1000"
    and sh: "\<forall>i j. i < j \<and> j < length ?ws \<longrightarrow> shared (?ws ! i) (?ws ! j) \<le> 50"
    by simp_all
  from ends have e3: "window_end (''chr1'', 750, 250) \<le> 1000" by simp
  from sh have "(2::nat) < 3 \<and> 3 < length ?ws \<longrightarrow> shared (?ws ! 2) (?ws ! 3) \<le> 50"
    by blast
  then have s23: "shared (''chr1'', 500, 300) (''chr1'', 750, 250) \<le> 50" by simp
  from ev cov e3 s23 show ?thesis by simp
qed

text \<open>
  Claim C9. For \<open>L = 1000\<close>, \<open>C = 300\<close>, \<open>O = 50\<close> the planner produces exactly the
  four windows with starts 0, 250, 500, 750 and lengths 300, 300, 300, 250, and they
  cover \<open>[0, 1000)\<close> exactly.
\<close>

theorem planner_example:
  "chrom_windows \<lparr>chunksize = 300, overlap = 50, genomes = gs\<rparr> chrom 1000 =
     Inr [(chrom, 0, 300), (chrom, 250, 300), (chrom, 500, 300), (chrom, 750, 250)]
   \<and> map window_start [(chrom, 0, 300), (chrom, 250, 300), (chrom, 500, 300), (chrom, 750, 250)]
       = [0, 250, 500, 750]
   \<and> map window_len [(chrom, 0, 300), (chrom, 250, 300), (chrom, 500, 300), (chrom, 750, 250)]
       = [300, 300, 300, 250]
   \<and> covered [(chrom, 0, 300), (chrom, 250, 300), (chrom, 500, 300), (chrom, 750, 250)]
       = {0..<1000}"
  by (simp add: example_windows example_covered window_start_def window_len_def)

text \<open>The outer loop runs the plan of one chromosome after the other.\<close>

lemma setup_loop_chrom_windows:
  "chrom_windows a chrom L = Inr ws \<Longrightarrow>
     setup_loop a ((chrom, L) # rest) results = setup_loop a rest (results @ ws)"
  "chrom_windows a chrom L = Inl e \<Longrightarrow>
     setup_loop a ((chrom, L) # rest) results = (results, Some e)"
  by (auto simp: chrom_windows_def chunk_loop_map split: sum.splits)

lemma setup_loop_neg:
  "chunksize a < overlap a \<Longrightarrow> \<forall>(chrom, chrom_size) \<in> set table. 0 \<le> chrom_size \<Longrightarrow>
   setup_loop a table results = (results, None)"
proof (induction table arbitrary: results)
  case Nil
  then show ?case by simp
next
  case (Cons p table)
  obtain chrom chrom_size where p: "p = (chrom, chrom_size)" by (cases p)
  with Cons.prems have "0 \<le> chrom_size" by simp
  then have "xrange 0 chrom_size (chunksize a - overlap a) = Inr []"
    using Cons.prems(1) by (simp add: xrange_def xrange_down_empty)
  with Cons p show ?case by simp
qed

text \<open>
  Claim C3 says that the planner fails with a ConfigError whenever \<open>C \<le> O\<close>. The code
  has no check of the configuration. For \<open>C < O\<close> the step is negative, \<^verbatim>\<open>xrange\<close>
  is empty for a non-negative chromosome length, and the loop ends without an error and
  without a window.
\<close>

theorem planner_bad_config_counterexample:
  "chrom_windows \<lparr>chunksize = 100, overlap = 200, genomes = []\<rparr> ''chr1'' 1000 = Inr []
   \<and> setup_loop \<lparr>chunksize = 100, overlap = 200, genomes = []\<rparr> [(''chr1'', 1000)] []
       = ([], None)"
  by (simp add: chrom_windows_def xrange_def xrange_down.simps)

text \<open>
  Claim C3, amended. For \<open>C = O\<close> the step is zero and \<^verbatim>\<open>xrange\<close> raises ValueError
  at the first chromosome of the table, before any job has been added. For \<open>C < O\<close>
  and non-negative chromosome lengths no error is raised and no window is produced.
\<close>

theorem planner_bad_config:
  "(chunksize a = overlap a \<longrightarrow>
      chrom_windows a chrom L = Inl ValueError
      \<and> setup_loop a ((chrom, L) # table) [] = ([], Some ValueError))
   \<and> (chunksize a < overlap a \<and> 0 \<le> L \<and> (\<forall>(c, n) \<in> set table. 0 \<le> n) \<longrightarrow>
      chrom_windows a chrom L = Inr []
      \<and> setup_loop a ((chrom, L) # table) [] = ([], None))"
proof (intro conjI impI)
  assume "chunksize a = overlap a"
  then show "chrom_windows a chrom L = Inl ValueError"
    and "setup_loop a ((chrom, L) # table) [] = ([], Some ValueError)"
    by (simp_all add: chrom_windows_def xrange_def)
next
  assume h: "chunksize a < overlap a \<and> 0 \<le> L \<and> (\<forall>(c, n) \<in> set table. 0 \<le> n)"
  then show "chrom_windows a chrom L = Inr []"
    by (simp add: chrom_windows_def xrange_def xrange_down_empty)
  from h have "\<forall>(c, n) \<in> set ((chrom, L) # table). 0 \<le> n" by simp
  with h show "setup_loop a ((chrom, L) # table) [] = ([], None)"
    by (intro setup_loop_neg) simp_all
qed

theorem planner_bad_config_witness:
  "chrom_windows \<lparr>chunksize = 300, overlap = 300, genomes = []\<rparr> ''chr1'' 1000 = Inl ValueError
   \<and> setup_loop \<lparr>chunksize = 300, overlap = 300, genomes = []\<rparr> [(''chr1'', 1000), (''chr2'', 500)] []
       = ([], Some ValueError)
   \<and> chrom_windows \<lparr>chunksize = 300, overlap = 400, genomes = []\<rparr> ''chr1'' 1000 = Inr []
   \<and> setup_loop \<lparr>chunksize = 300, overlap = 400, genomes = []\<rparr> [(''chr1'', 1000), (''chr2'', 500)] []
       = ([], None)"
  using planner_bad_config[of "\<lparr>chunksize = 300, overlap = 300, genomes = []\<rparr>" "''chr1''" 1000 "[(''chr2'', 500)]"]
        planner_bad_config[of "\<lparr>chunksize = 300, overlap = 400, genomes = []\<rparr>" "''chr1''" 1000 "[(''chr2'', 500)]"]
  by simp


lemma starts_of_Suc:
  assumes "Suc i < length (starts_of a L)"
  shows "starts_of a L ! i + (chunksize a - overlap a) = starts_of a L ! Suc i"
proof -
  from assms have "i < length (starts_of a L)" by simp
  then show ?thesis
    using assms by (simp add: starts_of_nth algebra_simps)
qed

text \<open>
  Claim C4 says that every window except the last has length exactly \<open>C\<close>. For
  \<open>L = 1000\<close>, \<open>C = 300\<close>, \<open>O = 200\<close> the window at start 800 is followed by the window at
  start 900 and has length 200.
\<close>

theorem window_lengths_counterexample:
  "chrom_windows \<lparr>chunksize = 300, overlap = 200, genomes = []\<rparr> ''chr1'' 1000 =
     Inr [(''chr1'', 0, 300), (''chr1'', 100, 300), (''chr1'', 200, 300), (''chr1'', 300, 300),
          (''chr1'', 400, 300), (''chr1'', 500, 300), (''chr1'', 600, 300), (''chr1'', 700, 300),
          (''chr1'', 800, 200), (''chr1'', 900, 100)]
   \<and> window_len (''chr1'', 800, 200) \<noteq> 300"
  by (simp add: chrom_windows_def xrange_def xrange_up.simps chunk_len_def window_len_def)

text \<open>
  Claim C4, amended. For every valid input each window has length
  \<open>min C (L - start)\<close>, which is positive and at most \<open>C\<close>; when \<open>O \<le> 1\<close> every window
  except the last has length exactly \<open>C\<close>; and the last window's length equals
  \<open>L - start\<close>.
\<close>

theorem window_lengths:
  assumes "0 \<le> L" "0 < chunksize a" "0 \<le> overlap a" "overlap a < chunksize a"
  shows "\<exists>ws. chrom_windows a chrom L = Inr ws
           \<and> (\<forall>w \<in> set ws. window_len w = min (chunksize a) (L - window_start w)
                              \<and> 0 < window_len w \<and> window_len w \<le> chunksize a)
           \<and> (overlap a \<le> 1 \<longrightarrow> (\<forall>i. Suc i < length ws \<longrightarrow> window_len (ws ! i) = chunksize a))
           \<and> (ws \<noteq> [] \<longrightarrow> window_len (last ws) = L - window_start (last ws))"
proof -
  let ?f = "\<lambda>s. (chrom, s, chunk_len a L s)"
  let ?ws = "map ?f (starts_of a L)"
  have 1: "chrom_windows a chrom L = Inr ?ws"
    using assms(4) by (rule chrom_windows_pos)
  have 2: "\<forall>w \<in> set ?ws. window_len w = min (chunksize a) (L - window_start w)
                              \<and> 0 < window_len w \<and> window_len w \<le> chunksize a"
    using assms(2)
    by (auto simp: window_len_def window_start_def chunk_len_min starts_of_set[OF assms(4)])
  have 3: "overlap a \<le> 1 \<longrightarrow> (\<forall>i. Suc i < length ?ws \<longrightarrow> window_len (?ws ! i) = chunksize a)"
  proof (intro impI allI)
    fix i assume o: "overlap a \<le> 1" and i: "Suc i < length ?ws"
    then have Si: "Suc i < length (starts_of a L)" by simp
    from starts_of_bounds(2)[OF assms(4) Si] starts_of_Suc[OF Si]
    have "starts_of a L ! i + (chunksize a - overlap a) < L" by simp
    with o have "starts_of a L ! i + chunksize a \<le> L" by simp
    with Si show "window_len (?ws ! i) = chunksize a"
      by (simp add: window_len_def chunk_len_def)
  qed
  have 4: "?ws \<noteq> [] \<longrightarrow> window_len (last ?ws) = L - window_start (last ?ws)"
  proof
    assume ne: "?ws \<noteq> []"
    then have ne': "starts_of a L \<noteq> []" by simp
    from starts_of_last[OF assms(4) ne'] assms(3)
    have "L \<le> last (starts_of a L) + chunksize a" by simp
    then have "chunk_len a L (last (starts_of a L)) = L - last (starts_of a L)"
      by (auto simp: chunk_len_def)
    with ne' show "window_len (last ?ws) = L - window_start (last ?ws)"
      by (simp add: last_map window_len_def window_start_def)
  qed
  from 1 2 3 4 show ?thesis by blast
qed

lemma windows_o200:
  "chrom_windows \<lparr>chunksize = 300, overlap = 200, genomes = []\<rparr> ''chr1'' 1000 =
     Inr [(''chr1'', 0, 300), (''chr1'', 100, 300), (''chr1'', 200, 300), (''chr1'', 300, 300),
          (''chr1'', 400, 300), (''chr1'', 500, 300), (''chr1'', 600, 300), (''chr1'', 700, 300),
          (''chr1'', 800, 200), (''chr1'', 900, 100)]"
  by (simp add: chrom_windows_def xrange_def xrange_up.simps chunk_len_def)

lemma windows_o0:
  "chrom_windows \<lparr>chunksize = 300, overlap = 0, genomes = []\<rparr> ''chr1'' 1000 =
     Inr [(''chr1'', 0, 300), (''chr1'', 300, 300), (''chr1'', 600, 300), (''chr1'', 900, 100)]"
  by (simp add: chrom_windows_def xrange_def xrange_up.simps chunk_len_def)

theorem window_lengths_witness:
  "(0::int) \<le> 1000 \<and> (0::int) < 300 \<and> (0::int) \<le> 200 \<and> (200::int) < 300
   \<and> window_len (''chr1'', 800, 200) = min 300 (1000 - window_start (''chr1'', 800, 200))
   \<and> 0 < window_len (''chr1'', 800, 200) \<and> window_len (''chr1'', 800, 200) \<le> 300
   \<and> window_len (''chr1'', 900, 100) = 1000 - window_start (''chr1'', 900, 100)
   \<and> chrom_windows \<lparr>chunksize = 300, overlap = 0, genomes = []\<rparr> ''chr1'' 1000 =
       Inr [(''chr1'', 0, 300), (''chr1'', 300, 300), (''chr1'', 600, 300), (''chr1'', 900, 100)]
   \<and> window_len (''chr1'', 600, 300) = 300"
proof -
  let ?a = "\<lparr>chunksize = 300, overlap = 200, genomes = []\<rparr>"
  let ?b = "\<lparr>chunksize = 300, overlap = 0, genomes = []\<rparr>"
  let ?vs = "[(''chr1'', 0, 300), (''chr1'', 300, 300), (''chr1'', 600, 300), (''chr1'', 900, 100)]"
  have "\<exists>ws. chrom_windows ?a ''chr1'' 1000 = Inr ws
           \<and> (\<forall>w \<in> set ws. window_len w = min (chunksize ?a) (1000 - window_start w)
                              \<and> 0 < window_len w \<and> window_len w \<le> chunksize ?a)
           \<and> (overlap ?a \<le> 1 \<longrightarrow> (\<forall>i. Suc i < length ws \<longrightarrow> window_len (ws ! i) = chunksize ?a))
           \<and> (ws \<noteq> [] \<longrightarrow> window_len (last ws) = 1000 - window_start (last ws))"
    by (rule window_lengths) simp_all
  then obtain ws where ws: "chrom_windows ?a ''chr1'' 1000 = Inr ws"
    and all: "\<forall>w \<in> set ws. window_len w = min (chunksize ?a) (1000 - window_start w)
                              \<and> 0 < window_len w \<and> window_len w \<le> chunksize ?a"
    and lst: "ws \<noteq> [] \<longrightarrow> window_len (last ws) = 1000 - window_start (last ws)"
    by blast
  from ws windows_o200 have ws_eq: "ws =
     [(''chr1'', 0, 300), (''chr1'', 100, 300), (''chr1'', 200, 300), (''chr1'', 300, 300),
      (''chr1'', 400, 300), (''chr1'', 500, 300), (''chr1'', 600, 300), (''chr1'', 700, 300),
      (''chr1'', 800, 200), (''chr1'', 900, 100)]"
    by simp
  then have "(''chr1'', 800, 200) \<in> set ws" by simp
  with all have w8: "window_len (''chr1'', 800, 200) = min 300 (1000 - window_start (''chr1'', 800, 200))
       \<and> 0 < window_len (''chr1'', 800, 200) \<and> window_len (''chr1'', 800, 200) \<le> 300"
    by fastforce
  from lst ws_eq have w9: "window_len (''chr1'', 900, 100) = 1000 - window_start (''chr1'', 900, 100)"
    by simp
  from window_lengths[of 1000 ?b "''chr1''"] windows_o0
  have "\<forall>i. Suc i < length ?vs \<longrightarrow> window_len (?vs ! i) = 300"
    by simp
  then have "Suc 2 < length ?vs \<longrightarrow> window_len (?vs ! 2) = 300" by blast
  then have w6: "window_len (''chr1'', 600, 300) = 300" by simp
  have ar: "(0::int) \<le> 1000 \<and> (0::int) < 300 \<and> (0::int) \<le> 200 \<and> (200::int) < 300"
    by simp
  from ar w8 w9 w6 windows_o0 show ?thesis by blast
qed


lemma windows_o30:
  "chrom_windows \<lparr>chunksize = 40, overlap = 30, genomes = []\<rparr> ''chr1'' 100 =
     Inr [(''chr1'', 0, 40), (''chr1'', 10, 40), (''chr1'', 20, 40), (''chr1'', 30, 40),
          (''chr1'', 40, 40), (''chr1'', 50, 40), (''chr1'', 60, 40), (''chr1'', 70, 30),
          (''chr1'', 80, 20), (''chr1'', 90, 10)]"
  by (simp add: chrom_windows_def xrange_def xrange_up.simps chunk_len_def)

text \<open>
  Claim C5 says that every pair of consecutive windows except the final pair overlaps
  by exactly \<open>O\<close>. For \<open>L = 100\<close>, \<open>C = 40\<close>, \<open>O = 30\<close> the windows at starts 70 and 80
  are consecutive, the window at start 90 follows them, and they share 20 coordinates.
\<close>

theorem consecutive_overlap_counterexample:
  "chrom_windows \<lparr>chunksize = 40, overlap = 30, genomes = []\<rparr> ''chr1'' 100 =
     Inr [(''chr1'', 0, 40), (''chr1'', 10, 40), (''chr1'', 20, 40), (''chr1'', 30, 40),
          (''chr1'', 40, 40), (''chr1'', 50, 40), (''chr1'', 60, 40), (''chr1'', 70, 30),
          (''chr1'', 80, 20), (''chr1'', 90, 10)]
   \<and> shared (''chr1'', 70, 30) (''chr1'', 80, 20) = 20"
  by (simp add: chrom_windows_def xrange_def xrange_up.simps chunk_len_def shared_def
                window_end_def window_start_def window_len_def)

lemma shared_consecutive:
  fixes chrom :: string
  assumes "0 \<le> overlap a" "overlap a < chunksize a" "Suc i < length (starts_of a L)"
  defines "ws \<equiv> map (\<lambda>s. (chrom, s, chunk_len a L s)) (starts_of a L)"
  shows "window_start (ws ! i) + chunksize a \<le> L \<Longrightarrow> shared (ws ! i) (ws ! Suc i) = overlap a"
    and "L < window_start (ws ! i) + chunksize a \<Longrightarrow>
           shared (ws ! i) (ws ! Suc i) = window_len (ws ! Suc i) \<and> shared (ws ! i) (ws ! Suc i) < overlap a"
proof -
  define s where "s = starts_of a L ! i"
  from assms(3) have i: "i < length (starts_of a L)" by simp
  have nxt: "starts_of a L ! Suc i = s + (chunksize a - overlap a)"
    using starts_of_Suc[OF assms(3)] by (simp add: s_def)
  have lt: "s + (chunksize a - overlap a) < L"
    using starts_of_bounds(2)[OF assms(2,3)] nxt by simp
  have wi: "ws ! i = (chrom, s, chunk_len a L s)"
    using i by (simp add: ws_def s_def)
  have wsi: "ws ! Suc i = (chrom, s + (chunksize a - overlap a),
                            chunk_len a L (s + (chunksize a - overlap a)))"
    using assms(3) nxt by (simp add: ws_def)
  show "window_start (ws ! i) + chunksize a \<le> L \<Longrightarrow> shared (ws ! i) (ws ! Suc i) = overlap a"
    using assms(1,2) lt unfolding wi wsi
    by (simp add: shared_def window_end_def window_start_def window_len_def chunk_len_def)
  show "L < window_start (ws ! i) + chunksize a \<Longrightarrow>
           shared (ws ! i) (ws ! Suc i) = window_len (ws ! Suc i) \<and> shared (ws ! i) (ws ! Suc i) < overlap a"
    using assms(1,2) lt unfolding wi wsi
    by (simp add: shared_def window_end_def window_start_def window_len_def chunk_len_def)
qed

text \<open>
  Claim C5, amended. For every valid input, a pair of consecutive windows whose first
  window is not clipped (\<open>start + C \<le> L\<close>) overlaps by exactly \<open>O\<close>; a pair whose
  first window is clipped overlaps in the whole of the second window, which is less
  than \<open>O\<close>; and when \<open>2 * O \<le> C\<close> every pair except the final one overlaps by
  exactly \<open>O\<close>.
\<close>

theorem consecutive_overlap:
  assumes "0 \<le> L" "0 < chunksize a" "0 \<le> overlap a" "overlap a < chunksize a"
  shows "\<exists>ws. chrom_windows a chrom L = Inr ws
           \<and> (\<forall>i. Suc i < length ws \<longrightarrow>
                 (window_start (ws ! i) + chunksize a \<le> L \<longrightarrow>
                    shared (ws ! i) (ws ! Suc i) = overlap a)
               \<and> (L < window_start (ws ! i) + chunksize a \<longrightarrow>
                    shared (ws ! i) (ws ! Suc i) = window_len (ws ! Suc i)
                    \<and> shared (ws ! i) (ws ! Suc i) < overlap a))
           \<and> (2 * overlap a \<le> chunksize a \<longrightarrow>
                 (\<forall>i. Suc (Suc i) < length ws \<longrightarrow> shared (ws ! i) (ws ! Suc i) = overlap a))"
proof -
  let ?ws = "map (\<lambda>s. (chrom, s, chunk_len a L s)) (starts_of a L)"
  have 1: "chrom_windows a chrom L = Inr ?ws"
    using assms(4) by (rule chrom_windows_pos)
  have 2: "\<forall>i. Suc i < length ?ws \<longrightarrow>
                 (window_start (?ws ! i) + chunksize a \<le> L \<longrightarrow>
                    shared (?ws ! i) (?ws ! Suc i) = overlap a)
               \<and> (L < window_start (?ws ! i) + chunksize a \<longrightarrow>
                    shared (?ws ! i) (?ws ! Suc i) = window_len (?ws ! Suc i)
                    \<and> shared (?ws ! i) (?ws ! Suc i) < overlap a)"
  proof (intro allI impI conjI)
    fix i assume "Suc i < length ?ws"
    then have Si: "Suc i < length (starts_of a L)" by simp
    {
      assume "window_start (?ws ! i) + chunksize a \<le> L"
      then show "shared (?ws ! i) (?ws ! Suc i) = overlap a"
        by (rule shared_consecutive(1)[OF assms(3,4) Si])
    }
    assume c: "L < window_start (?ws ! i) + chunksize a"
    from shared_consecutive(2)[OF assms(3,4) Si c]
    show "shared (?ws ! i) (?ws ! Suc i) = window_len (?ws ! Suc i)"
      and "shared (?ws ! i) (?ws ! Suc i) < overlap a"
      by blast+
  qed
  have 3: "2 * overlap a \<le> chunksize a \<longrightarrow>
                 (\<forall>i. Suc (Suc i) < length ?ws \<longrightarrow> shared (?ws ! i) (?ws ! Suc i) = overlap a)"
  proof (intro impI allI)
    fix i assume o: "2 * overlap a \<le> chunksize a" and "Suc (Suc i) < length ?ws"
    then have SSi: "Suc (Suc i) < length (starts_of a L)" by simp
    then have Si: "Suc i < length (starts_of a L)" and i: "i < length (starts_of a L)" by simp_all
    from starts_of_Suc[OF SSi] starts_of_Suc[OF Si] starts_of_bounds(2)[OF assms(4) SSi]
    have "starts_of a L ! i + 2 * (chunksize a - overlap a) < L" by simp
    with o have "starts_of a L ! i + chunksize a \<le> L" by simp
    then have "window_start (?ws ! i) + chunksize a \<le> L"
      using i by (simp add: window_start_def)
    with shared_consecutive(1)[OF assms(3,4) Si, of chrom]
    show "shared (?ws ! i) (?ws ! Suc i) = overlap a" by simp
  qed
  from 1 2 3 show ?thesis by blast
qed


theorem consecutive_overlap_witness:
  "(0::int) \<le> 100 \<and> (0::int) < 40 \<and> (0::int) \<le> 30 \<and> (30::int) < 40
   \<and> window_start (''chr1'', 60, 40) + 40 \<le> 100
   \<and> shared (''chr1'', 60, 40) (''chr1'', 70, 30) = 30
   \<and> 100 < window_start (''chr1'', 70, 30) + 40
   \<and> shared (''chr1'', 70, 30) (''chr1'', 80, 20) = window_len (''chr1'', 80, 20)
   \<and> shared (''chr1'', 70, 30) (''chr1'', 80, 20) < 30
   \<and> (2::int) * 50 \<le> 300
   \<and> shared (''chr1'', 250, 300) (''chr1'', 500, 300) = 50"
proof -
  let ?a = "\<lparr>chunksize = 40, overlap = 30, genomes = []\<rparr>"
  let ?b = "\<lparr>chunksize = 300, overlap = 50, genomes = []\<rparr>"
  have "\<exists>ws. chrom_windows ?a ''chr1'' 100 = Inr ws
           \<and> (\<forall>i. Suc i < length ws \<longrightarrow>
                 (window_start (ws ! i) + chunksize ?a \<le> 100 \<longrightarrow>
                    shared (ws ! i) (ws ! Suc i) = overlap ?a)
               \<and> (100 < window_start (ws ! i) + chunksize ?a \<longrightarrow>
                    shared (ws ! i) (ws ! Suc i) = window_len (ws ! Suc i)
                    \<and> shared (ws ! i) (ws ! Suc i) < overlap ?a))
           \<and> (2 * overlap ?a \<le> chunksize ?a \<longrightarrow>
                 (\<forall>i. Suc (Suc i) < length ws \<longrightarrow> shared (ws ! i) (ws ! Suc i) = overlap ?a))"
    by (rule consecutive_overlap) simp_all
  then obtain ws where ws: "chrom_windows ?a ''chr1'' 100 = Inr ws"
    and pairs: "\<forall>i. Suc i < length ws \<longrightarrow>
                 (window_start (ws ! i) + chunksize ?a \<le> 100 \<longrightarrow>
                    shared (ws ! i) (ws ! Suc i) = overlap ?a)
               \<and> (100 < window_start (ws ! i) + chunksize ?a \<longrightarrow>
                    shared (ws ! i) (ws ! Suc i) = window_len (ws ! Suc i)
                    \<and> shared (ws ! i) (ws ! Suc i) < overlap ?a)"
    by blast
  from ws windows_o30 have ws_eq: "ws =
     [(''chr1'', 0, 40), (''chr1'', 10, 40), (''chr1'', 20, 40), (''chr1'', 30, 40),
      (''chr1'', 40, 40), (''chr1'', 50, 40), (''chr1'', 60, 40), (''chr1'', 70, 30),
      (''chr1'', 80, 20), (''chr1'', 90, 10)]"
    by simp
  have c6: "window_start (''chr1'', 60, 40) + 40 \<le> 100"
    and c7: "100 < window_start (''chr1'', 70, 30) + 40"
    by (simp_all add: window_start_def)
  from spec[OF pairs, of 6] c6
  have p6: "shared (''chr1'', 60, 40) (''chr1'', 70, 30) = 30"
    by (simp add: ws_eq)
  from spec[OF pairs, of 7] c7
  have p7: "shared (''chr1'', 70, 30) (''chr1'', 80, 20) = window_len (''chr1'', 80, 20)
                    \<and> shared (''chr1'', 70, 30) (''chr1'', 80, 20) < 30"
    by (simp add: ws_eq)
  have "\<exists>vs. chrom_windows ?b ''chr1'' 1000 = Inr vs
           \<and> (\<forall>i. Suc i < length vs \<longrightarrow>
                 (window_start (vs ! i) + chunksize ?b \<le> 1000 \<longrightarrow>
                    shared (vs ! i) (vs ! Suc i) = overlap ?b)
               \<and> (1000 < window_start (vs ! i) + chunksize ?b \<longrightarrow>
                    shared (vs ! i) (vs ! Suc i) = window_len (vs ! Suc i)
                    \<and> shared (vs ! i) (vs ! Suc i) < overlap ?b))
           \<and> (2 * overlap ?b \<le> chunksize ?b \<longrightarrow>
                 (\<forall>i. Suc (Suc i) < length vs \<longrightarrow> shared (vs ! i) (vs ! Suc i) = overlap ?b))"
    by (rule consecutive_overlap) simp_all
  then obtain vs where vs: "chrom_windows ?b ''chr1'' 1000 = Inr vs"
    and inner: "2 * overlap ?b \<le> chunksize ?b \<longrightarrow>
                 (\<forall>i. Suc (Suc i) < length vs \<longrightarrow> shared (vs ! i) (vs ! Suc i) = overlap ?b)"
    by blast
  from vs example_windows[of "[]" "''chr1''"] have vs_eq: "vs =
     [(''chr1'', 0, 300), (''chr1'', 250, 300), (''chr1'', 500, 300), (''chr1'', 750, 250)]"
    by simp
  from inner have "\<forall>i. Suc (Suc i) < length vs \<longrightarrow> shared (vs ! i) (vs ! Suc i) = 50"
    by simp
  from spec[OF this, of 1]
  have p1: "shared (''chr1'', 250, 300) (''chr1'', 500, 300) = 50"
    by (simp add: vs_eq)
  have ar: "(0::int) \<le> 100 \<and> (0::int) < 40 \<and> (0::int) \<le> 30 \<and> (30::int) < 40"
    "(2::int) * 50 \<le> 300"
    by simp_all
  from ar c6 c7 p6 p7 p1 show ?thesis by blast
qed

section \<open>Properties of dictionaries and of the regrouping\<close>


lemma dict_set_fresh: "k \<notin> fst ` set d \<Longrightarrow> dict_set d k v = d @ [(k, v)]"
  by (induction d) (auto simp: dict_set_def)

lemma map_of_dict_set: "map_of (dict_set d k v) = (map_of d)(k \<mapsto> v)"
  by (simp add: dict_set_def update_conv')

lemma keys_dict_set: "fst ` set (dict_set d k v) = insert k (fst ` set d)"
  by (induction d) (auto simp: dict_set_def)

lemma distinct_dict_set: "distinct (map fst d) \<Longrightarrow> distinct (map fst (dict_set d k v))"
  by (simp add: dict_set_def distinct_update)

lemma iteritems_perm:
  assumes "valid_order ord" "distinct (map fst d)"
  shows "mset (iteritems ord d) = mset d"
proof -
  have m: "mset (ord (map fst d)) = mset (map fst d)"
    using assms by (simp add: valid_order_def)
  then have s: "set (ord (map fst d)) = set (map fst d)" by (metis set_mset_mset)
  have "iteritems ord d = map (\<lambda>k. (k, the (map_of d k))) (ord (map fst d))"
    unfolding iteritems_def map_filter_def
  proof -
    have "\<forall>k \<in> set (ord (map fst d)). map_of d k \<noteq> None"
      using s by (auto simp: map_of_eq_None_iff)
    then show "map (the \<circ> (\<lambda>k. map_option (Pair k) (map_of d k)))
                 (filter (\<lambda>x. map_option (Pair x) (map_of d x) \<noteq> None) (ord (map fst d))) =
               map (\<lambda>k. (k, the (map_of d k))) (ord (map fst d))"
      by (induction "ord (map fst d)") (auto simp: filter_id_conv)
  qed
  then have "mset (iteritems ord d) = mset (map (\<lambda>k. (k, the (map_of d k))) (ord (map fst d)))"
    by simp
  also have "\<dots> = mset (map (\<lambda>k. (k, the (map_of d k))) (map fst d))"
    by (simp only: mset_map m)
  also have "map (\<lambda>k. (k, the (map_of d k))) (map fst d) = d"
  proof -
    have "\<And>e. e \<in> set d \<Longrightarrow> (fst e, the (map_of d (fst e))) = e"
      using assms(2) by (metis map_of_is_SomeI option.sel prod.collapse)
    then show ?thesis by (simp add: map_idI)
  qed
  finally show ?thesis .
qed

lemma valid_slot_order: "valid_order slot_order"
  by (simp add: valid_order_def slot_order_def)

lemma defaultdict_get_dict_set:
  "defaultdict_get (dict_set d k v) g = (if g = k then v else defaultdict_get d g)"
  by (simp add: defaultdict_get_def map_of_dict_set)

lemma regroup_genomes_get:
  "defaultdict_get (regroup_genomes key es by_genome) g =
     fold (\<lambda>e inner. if fst e = g then dict_set inner key (snd e) else inner) es
       (defaultdict_get by_genome g)"
  by (induction es arbitrary: by_genome) (simp_all add: defaultdict_get_dict_set)

lemma fold_single_genome:
  "distinct (map fst es) \<Longrightarrow>
   fold (\<lambda>e inner. if fst e = g then dict_set inner key (snd e) else inner) es inner =
     (case map_of es g of None \<Rightarrow> inner | Some fid \<Rightarrow> dict_set inner key fid)"
proof (induction es arbitrary: inner)
  case Nil
  then show ?case by simp
next
  case (Cons e es)
  show ?case
  proof (cases "fst e = g")
    case True
    with Cons.prems have "map_of es g = None"
      by (simp add: map_of_eq_None_iff)
    with Cons True show ?thesis by simp
  next
    case False
    with Cons show ?thesis by simp
  qed
qed

lemma iteritems_map_of:
  assumes "valid_order ord" "distinct (map fst d)"
  shows "distinct (map fst (iteritems ord d))" "map_of (iteritems ord d) = map_of d"
proof -
  have m: "mset (iteritems ord d) = mset d"
    using assms by (rule iteritems_perm)
  then have "mset (map fst (iteritems ord d)) = mset (map fst d)"
    by (metis mset_map)
  with assms(2) show dist: "distinct (map fst (iteritems ord d))"
    by (metis mset_eq_imp_distinct_iff)
  from m have "set (iteritems ord d) = set d" by (metis set_mset_mset)
  with dist assms(2) show "map_of (iteritems ord d) = map_of d"
    by (simp add: map_of_inject_set)
qed

lemma regroup_get:
  assumes "valid_order gord" "\<forall>r \<in> set results. distinct (map fst (fst (snd r)))"
  shows "defaultdict_get (fst (regroup gord results state)) g =
           fold (\<lambda>r inner. case map_of (fst (snd r)) g of None \<Rightarrow> inner
                             | Some fid \<Rightarrow> dict_set inner (fst r) fid)
                results (defaultdict_get (fst state) g)"
  using assms(2)
proof (induction results arbitrary: state)
  case Nil
  then show ?case by simp
next
  case (Cons r results)
  then have d: "distinct (map fst (fst (snd r)))" by simp
  have "defaultdict_get (regroup_genomes (fst r) (iteritems gord (fst (snd r))) (fst state)) g =
          (case map_of (fst (snd r)) g of None \<Rightarrow> defaultdict_get (fst state) g
           | Some fid \<Rightarrow> dict_set (defaultdict_get (fst state) g) (fst r) fid)"
    by (simp add: regroup_genomes_get fold_single_genome iteritems_map_of[OF assms(1) d])
  with Cons show ?case by simp
qed

lemma regroup_stdout:
  "snd (regroup gord results state) =
     fold (\<lambda>r ids. dict_set ids (fst r) (snd (snd r))) results (snd state)"
  by (induction results arbitrary: state) simp_all

lemma fold_stdout_fresh:
  "distinct (map fst results) \<Longrightarrow> fst ` set ids \<inter> fst ` set results = {} \<Longrightarrow>
   fold (\<lambda>r ids. dict_set ids (fst r) (snd (snd r))) results ids =
     ids @ map (\<lambda>r. (fst r, snd (snd r))) results"
proof (induction results arbitrary: ids)
  case Nil
  then show ?case by simp
next
  case (Cons r results)
  from Cons.prems have fresh: "fst r \<notin> fst ` set ids" by auto
  have "fst ` set (ids @ [(fst r, snd (snd r))]) \<inter> fst ` set results = {}"
    using Cons.prems by auto
  with Cons.IH[of "ids @ [(fst r, snd (snd r))]"] Cons.prems fresh
  show ?case by (simp add: dict_set_fresh)
qed


lemma chunks_of_Cons:
  "chunks_of g (r # results) =
     (case map_of (fst (snd r)) g of None \<Rightarrow> chunks_of g results
      | Some fid \<Rightarrow> (fst r, fid) # chunks_of g results)"
  by (simp add: chunks_of_def map_filter_simps split: option.splits)

lemma chunks_of_keys: "fst ` set (chunks_of g results) \<subseteq> fst ` set results"
  by (induction results) (auto simp: chunks_of_Cons chunks_of_def map_filter_simps split: option.splits)

lemma fold_chunks_fresh:
  "distinct (map fst results) \<Longrightarrow> fst ` set inner \<inter> fst ` set results = {} \<Longrightarrow>
   fold (\<lambda>r inner. case map_of (fst (snd r)) g of None \<Rightarrow> inner
                     | Some fid \<Rightarrow> dict_set inner (fst r) fid) results inner =
     inner @ chunks_of g results"
proof (induction results arbitrary: inner)
  case Nil
  then show ?case by (simp add: chunks_of_def map_filter_simps)
next
  case (Cons r results)
  from Cons.prems have fresh: "fst r \<notin> fst ` set inner" by auto
  show ?case
  proof (cases "map_of (fst (snd r)) g")
    case None
    with Cons show ?thesis by (simp add: chunks_of_Cons)
  next
    case (Some fid)
    have "fst ` set (inner @ [(fst r, fid)]) \<inter> fst ` set results = {}"
      using Cons.prems by auto
    with Cons.IH[of "inner @ [(fst r, fid)]"] Cons.prems fresh Some
    show ?thesis by (simp add: dict_set_fresh chunks_of_Cons)
  qed
qed

lemma by_genome_chunks:
  assumes "valid_order gord" "\<forall>r \<in> set results. distinct (map fst (fst (snd r)))"
    "distinct (map fst results)"
  shows "defaultdict_get (gff_chunks_by_genome gord results) g = chunks_of g results"
proof -
  have "defaultdict_get (gff_chunks_by_genome gord results) g =
          fold (\<lambda>r inner. case map_of (fst (snd r)) g of None \<Rightarrow> inner
                             | Some fid \<Rightarrow> dict_set inner (fst r) fid) results []"
    unfolding gff_chunks_by_genome_def regroup_get[OF assms(1,2)]
    by (simp add: defaultdict_get_def)
  with fold_chunks_fresh[OF assms(3), of "[]" g] show ?thesis by simp
qed

lemma stdout_ids_chunks:
  assumes "distinct (map fst results)"
  shows "stdout_file_ids gord results = map (\<lambda>r. (fst r, snd (snd r))) results"
  using fold_stdout_fresh[OF assms, of "[]"]
  by (simp add: stdout_file_ids_def regroup_stdout)

lemma write_chunks_blocks:
  "\<forall>e \<in> set es. snd e < length store \<Longrightarrow>
   write_chunks store es out = Inr (out @ concat (map (block store) es))"
  by (induction store es out rule: write_chunks.induct)
     (simp_all add: readGlobalFile_def block_def)

lemma chunks_of_distinct:
  "distinct (map fst results) \<Longrightarrow> distinct (map fst (chunks_of g results))"
proof (induction results)
  case Nil
  then show ?case by (simp add: chunks_of_def map_filter_simps)
next
  case (Cons r results)
  then show ?case
    using chunks_of_keys[of g results]
    by (auto simp: chunks_of_Cons split: option.splits)
qed

section \<open>Order of the merged files\<close>

text \<open>
  The running example: one chromosome \<^verbatim>\<open>chr1\<close> of length 550 with \<open>C = 300\<close> and
  \<open>O = 50\<close>, one target genome, and a job store in which every prediction job wrote
  its standard output and then its feature file. The three window keys hash to the
  slots 5, 7 and 3, so CPython 2.7 iterates a dictionary of these keys in the order of
  the starts 500, 0, 250.
\<close>

lemma example_results_plan:
  "setup_loop \<lparr>chunksize = 300, overlap = 50, genomes = [''hg38'']\<rparr> [(''chr1'', 550)] [] =
     ([(''chr1'', 0, 300), (''chr1'', 250, 300), (''chr1'', 500, 50)], None)"
  by (simp add: xrange_def xrange_up.simps chunk_len_def)

lemma example_slot_order:
  "slot_order [(''chr1'', 0, 300), (''chr1'', 250, 300), (''chr1'', 500, 50)] =
     [(''chr1'', 500, 50), (''chr1'', 0, 300), (''chr1'', 250, 300)]"
  by (simp add: slot_order_def chunk_key_slot_def tuplehash_def string_hash_def int_hash_def)

lemma example_slots:
  "map chunk_key_slot [(''chr1'', 0, 300), (''chr1'', 250, 300), (''chr1'', 500, 50)] = [5, 7, 3]"
  by (simp add: chunk_key_slot_def tuplehash_def string_hash_def int_hash_def)

lemma example_by_genome:
  "defaultdict_get (gff_chunks_by_genome (\<lambda>ks. ks)
      [((''chr1'', 0, 300), [(''hg38'', 1)], 0),
       ((''chr1'', 250, 300), [(''hg38'', 3)], 2),
       ((''chr1'', 500, 50), [(''hg38'', 5)], 4)]) ''hg38'' =
   [((''chr1'', 0, 300), 1), ((''chr1'', 250, 300), 3), ((''chr1'', 500, 50), 5)]"
  by (simp add: gff_chunks_by_genome_def iteritems_def map_filter_simps dict_set_def
                defaultdict_get_def)

lemma example_stdout_ids:
  "stdout_file_ids (\<lambda>ks. ks)
      [((''chr1'', 0, 300), [(''hg38'', 1)], 0),
       ((''chr1'', 250, 300), [(''hg38'', 3)], 2),
       ((''chr1'', 500, 50), [(''hg38'', 5)], 4)] =
   [((''chr1'', 0, 300), 0), ((''chr1'', 250, 300), 2), ((''chr1'', 500, 50), 4)]"
  by (simp add: stdout_file_ids_def iteritems_def map_filter_simps dict_set_def
                defaultdict_get_def)

text \<open>
  Claim C2 says that each genome's chunk collection is sorted by window start before
  the join and that the raw concatenation is in window-start order. The code sorts
  nowhere: \<^verbatim>\<open>join_genes\<close> receives a dictionary and writes in its iteration order.
  In the running example the chunks are written in the order 500, 0, 250.
\<close>

theorem merge_order_counterexample:
  "fst (setup_loop \<lparr>chunksize = 300, overlap = 50, genomes = [''hg38'']\<rparr> [(''chr1'', 550)] []) =
     [(''chr1'', 0, 300), (''chr1'', 250, 300), (''chr1'', 500, 50)]
   \<and> map (window_start \<circ> fst)
        (iteritems slot_order
          (defaultdict_get (gff_chunks_by_genome (\<lambda>ks. ks)
             [((''chr1'', 0, 300), [(''hg38'', 1)], 0),
              ((''chr1'', 250, 300), [(''hg38'', 3)], 2),
              ((''chr1'', 500, 50), [(''hg38'', 5)], 4)]) ''hg38'')) = [500, 0, 250]
   \<and> join_genes_raw slot_order [''log0'', ''gff0'', ''log1'', ''gff1'', ''log2'', ''gff2'']
        (defaultdict_get (gff_chunks_by_genome (\<lambda>ks. ks)
             [((''chr1'', 0, 300), [(''hg38'', 1)], 0),
              ((''chr1'', 250, 300), [(''hg38'', 3)], 2),
              ((''chr1'', 500, 50), [(''hg38'', 5)], 4)]) ''hg38'') =
       Inr (marker (''chr1'', 500, 50) @ ''gff2'' @ marker (''chr1'', 0, 300) @ ''gff0''
            @ marker (''chr1'', 250, 300) @ ''gff1'')"
  unfolding example_by_genome example_results_plan
  by (simp add: example_slot_order iteritems_def map_filter_simps window_start_def
                join_genes_raw_def readGlobalFile_def)

text \<open>
  Claim C7 says that the run-level log holds the windows' logs in window order. The
  loop runs over \<^verbatim>\<open>stdout_file_ids.iteritems()\<close>; in the running example the logs
  are written in the order 500, 0, 250.
\<close>

theorem stdout_log_counterexample:
  "fst (setup_loop \<lparr>chunksize = 300, overlap = 50, genomes = [''hg38'']\<rparr> [(''chr1'', 550)] []) =
     [(''chr1'', 0, 300), (''chr1'', 250, 300), (''chr1'', 500, 50)]
   \<and> stdout_log slot_order [''log0'', ''gff0'', ''log1'', ''gff1'', ''log2'', ''gff2'']
        (stdout_file_ids (\<lambda>ks. ks)
             [((''chr1'', 0, 300), [(''hg38'', 1)], 0),
              ((''chr1'', 250, 300), [(''hg38'', 3)], 2),
              ((''chr1'', 500, 50), [(''hg38'', 5)], 4)]) =
       Inr (marker (''chr1'', 500, 50) @ ''log2'' @ marker (''chr1'', 0, 300) @ ''log0''
            @ marker (''chr1'', 250, 300) @ ''log1'')"
  unfolding example_stdout_ids example_results_plan
  by (simp add: example_slot_order iteritems_def map_filter_simps stdout_log_def
                readGlobalFile_def)

text \<open>
  Claim C2, amended. For results with pairwise different window keys, the collection
  passed to the join of a genome is a dictionary that holds exactly the chunks of that
  genome, one per window, in the order of the result list; no sorting takes place. The
  raw concatenation is the concatenation of the blocks (marker line, then the chunk) of
  these chunks, each once, in the iteration order of the dictionary.
\<close>

theorem regroup_join:
  assumes "distinct (map fst results)"
    and "\<forall>r \<in> set results. distinct (map fst (fst (snd r)))"
    and "valid_order gord" and "valid_order ord"
    and "\<forall>e \<in> set (chunks_of genome results). snd e < length store"
  shows "defaultdict_get (gff_chunks_by_genome gord results) genome = chunks_of genome results
       \<and> mset (iteritems ord (defaultdict_get (gff_chunks_by_genome gord results) genome)) =
           mset (chunks_of genome results)
       \<and> join_genes_raw ord store (defaultdict_get (gff_chunks_by_genome gord results) genome) =
           Inr (concat (map (block store)
                  (iteritems ord (defaultdict_get (gff_chunks_by_genome gord results) genome))))"
proof -
  let ?d = "defaultdict_get (gff_chunks_by_genome gord results) genome"
  have d: "?d = chunks_of genome results"
    using assms(3,2,1) by (rule by_genome_chunks)
  have dist: "distinct (map fst (chunks_of genome results))"
    using assms(1) by (rule chunks_of_distinct)
  have perm: "mset (iteritems ord ?d) = mset (chunks_of genome results)"
    unfolding d using assms(4) dist by (rule iteritems_perm)
  then have "set (iteritems ord ?d) = set (chunks_of genome results)"
    by (metis set_mset_mset)
  with assms(5) have "\<forall>e \<in> set (iteritems ord ?d). snd e < length store" by simp
  then have "join_genes_raw ord store ?d = Inr (concat (map (block store) (iteritems ord ?d)))"
    by (simp add: join_genes_raw_def write_chunks_blocks)
  with d perm show ?thesis by simp
qed

text \<open>
  Claim C7, amended. For results with pairwise different window keys, the run-level log
  is the concatenation of every window's prediction log, each once and each preceded by
  the marker line of its window, in the iteration order of the dictionary
  \<^verbatim>\<open>stdout_file_ids\<close>, which need not be window order.
\<close>

theorem stdout_log_blocks:
  assumes "distinct (map fst results)" and "valid_order ord"
    and "\<forall>r \<in> set results. snd (snd r) < length store"
  shows "stdout_file_ids gord results = map (\<lambda>r. (fst r, snd (snd r))) results
       \<and> mset (iteritems ord (stdout_file_ids gord results)) =
           mset (map (\<lambda>r. (fst r, snd (snd r))) results)
       \<and> stdout_log ord store (stdout_file_ids gord results) =
           Inr (concat (map (block store) (iteritems ord (stdout_file_ids gord results))))"
proof -
  let ?ids = "stdout_file_ids gord results"
  have ids: "?ids = map (\<lambda>r. (fst r, snd (snd r))) results"
    using assms(1) by (rule stdout_ids_chunks)
  have "map fst (map (\<lambda>r. (fst r, snd (snd r))) results) = map fst results"
    by simp
  with assms(1) have dist: "distinct (map fst ?ids)" by (simp only: ids)
  have perm: "mset (iteritems ord ?ids) = mset ?ids"
    using assms(2) dist by (rule iteritems_perm)
  then have "set (iteritems ord ?ids) = set ?ids"
    by (metis set_mset_mset)
  with assms(3) have "\<forall>e \<in> set (iteritems ord ?ids). snd e < length store"
    by (auto simp: ids)
  then have "stdout_log ord store ?ids = Inr (concat (map (block store) (iteritems ord ?ids)))"
    by (simp add: stdout_log_def write_chunks_blocks)
  with ids perm show ?thesis by simp
qed


lemma valid_order_id: "valid_order (\<lambda>ks. ks)"
  by (simp add: valid_order_def)

lemma example_chunks_of:
  "chunks_of ''hg38''
      [((''chr1'', 0, 300), [(''hg38'', 1)], 0),
       ((''chr1'', 250, 300), [(''hg38'', 3)], 2),
       ((''chr1'', 500, 50), [(''hg38'', 5)], 4)] =
   [((''chr1'', 0, 300), 1), ((''chr1'', 250, 300), 3), ((''chr1'', 500, 50), 5)]"
  by (simp add: chunks_of_def map_filter_simps)

theorem regroup_join_witness:
  "chunks_of ''hg38''
      [((''chr1'', 0, 300), [(''hg38'', 1)], 0),
       ((''chr1'', 250, 300), [(''hg38'', 3)], 2),
       ((''chr1'', 500, 50), [(''hg38'', 5)], 4)] =
     [((''chr1'', 0, 300), 1), ((''chr1'', 250, 300), 3), ((''chr1'', 500, 50), 5)]
   \<and> defaultdict_get (gff_chunks_by_genome (\<lambda>ks. ks)
        [((''chr1'', 0, 300), [(''hg38'', 1)], 0),
         ((''chr1'', 250, 300), [(''hg38'', 3)], 2),
         ((''chr1'', 500, 50), [(''hg38'', 5)], 4)]) ''hg38'' =
     [((''chr1'', 0, 300), 1), ((''chr1'', 250, 300), 3), ((''chr1'', 500, 50), 5)]
   \<and> join_genes_raw slot_order [''log0'', ''gff0'', ''log1'', ''gff1'', ''log2'', ''gff2'']
        [((''chr1'', 0, 300), 1), ((''chr1'', 250, 300), 3), ((''chr1'', 500, 50), 5)] =
     Inr (concat (map (block [''log0'', ''gff0'', ''log1'', ''gff1'', ''log2'', ''gff2''])
       [((''chr1'', 500, 50), 5), ((''chr1'', 0, 300), 1), ((''chr1'', 250, 300), 3)]))"
proof -
  let ?results = "[((''chr1'', 0::int, 300::int), [(''hg38'', 1)], 0),
       ((''chr1'', 250, 300), [(''hg38'', 3)], 2),
       ((''chr1'', 500, 50), [(''hg38'', 5::nat)], 4::nat)]"
  let ?store = "[''log0'', ''gff0'', ''log1'', ''gff1'', ''log2'', ''gff2'']"
  let ?d = "[((''chr1'', 0::int, 300::int), 1), ((''chr1'', 250, 300), 3), ((''chr1'', 500, 50), 5::nat)]"
  have h1: "distinct (map fst ?results)" by simp
  have h2: "\<forall>r \<in> set ?results. distinct (map fst (fst (snd r)))" by simp
  have h5: "\<forall>e \<in> set (chunks_of ''hg38'' ?results). snd e < length ?store"
    unfolding example_chunks_of by simp
  have it: "iteritems slot_order ?d =
      [((''chr1'', 500, 50), 5), ((''chr1'', 0, 300), 1), ((''chr1'', 250, 300), 3)]"
    by (simp add: iteritems_def example_slot_order map_filter_simps)
  note r = regroup_join[OF h1 h2 valid_order_id valid_slot_order h5, unfolded example_chunks_of]
  from r have a: "defaultdict_get (gff_chunks_by_genome (\<lambda>ks. ks) ?results) ''hg38'' = ?d"
    by blast
  from r have "join_genes_raw slot_order ?store
                 (defaultdict_get (gff_chunks_by_genome (\<lambda>ks. ks) ?results) ''hg38'') =
           Inr (concat (map (block ?store) (iteritems slot_order
                 (defaultdict_get (gff_chunks_by_genome (\<lambda>ks. ks) ?results) ''hg38''))))"
    by blast
  then have c: "join_genes_raw slot_order ?store ?d =
      Inr (concat (map (block ?store)
        [((''chr1'', 500, 50), 5), ((''chr1'', 0, 300), 1), ((''chr1'', 250, 300), 3)]))"
    by (simp only: a it)
  from example_chunks_of a c show ?thesis by blast
qed

theorem stdout_log_blocks_witness:
  "stdout_file_ids (\<lambda>ks. ks)
        [((''chr1'', 0, 300), [(''hg38'', 1)], 0),
         ((''chr1'', 250, 300), [(''hg38'', 3)], 2),
         ((''chr1'', 500, 50), [(''hg38'', 5)], 4)] =
     [((''chr1'', 0, 300), 0), ((''chr1'', 250, 300), 2), ((''chr1'', 500, 50), 4)]
   \<and> stdout_log slot_order [''log0'', ''gff0'', ''log1'', ''gff1'', ''log2'', ''gff2'']
        [((''chr1'', 0, 300), 0), ((''chr1'', 250, 300), 2), ((''chr1'', 500, 50), 4)] =
     Inr (concat (map (block [''log0'', ''gff0'', ''log1'', ''gff1'', ''log2'', ''gff2''])
       [((''chr1'', 500, 50), 4), ((''chr1'', 0, 300), 0), ((''chr1'', 250, 300), 2)]))"
proof -
  let ?results = "[((''chr1'', 0::int, 300::int), [(''hg38'', 1)], 0),
       ((''chr1'', 250, 300), [(''hg38'', 3)], 2),
       ((''chr1'', 500, 50), [(''hg38'', 5::nat)], 4::nat)]"
  let ?store = "[''log0'', ''gff0'', ''log1'', ''gff1'', ''log2'', ''gff2'']"
  let ?ids = "[((''chr1'', 0::int, 300::int), 0), ((''chr1'', 250, 300), 2), ((''chr1'', 500, 50), 4::nat)]"
  have h1: "distinct (map fst ?results)" by simp
  have h3: "\<forall>r \<in> set ?results. snd (snd r) < length ?store" by simp
  have it: "iteritems slot_order ?ids =
      [((''chr1'', 500, 50), 4), ((''chr1'', 0, 300), 0), ((''chr1'', 250, 300), 2)]"
    by (simp add: iteritems_def example_slot_order map_filter_simps)
  note r = stdout_log_blocks[OF h1 valid_slot_order h3, of "\<lambda>ks. ks"]
  from r have "stdout_file_ids (\<lambda>ks. ks) ?results = map (\<lambda>r. (fst r, snd (snd r))) ?results"
    by blast
  then have a: "stdout_file_ids (\<lambda>ks. ks) ?results = ?ids" by simp
  from r have "stdout_log slot_order ?store (stdout_file_ids (\<lambda>ks. ks) ?results) =
           Inr (concat (map (block ?store)
                  (iteritems slot_order (stdout_file_ids (\<lambda>ks. ks) ?results))))"
    by blast
  then have c: "stdout_log slot_order ?store ?ids =
      Inr (concat (map (block ?store)
        [((''chr1'', 500, 50), 4), ((''chr1'', 0, 300), 0), ((''chr1'', 250, 300), 2)]))"
    by (simp only: a it)
  from a c show ?thesis by blast
qed

section \<open>Window keys and the dictionaries of the merge stage\<close>

lemma setup_loop_pos:
  "overlap a < chunksize a \<Longrightarrow>
   setup_loop a table results =
     (results @ concat (map (\<lambda>(c, L). map (\<lambda>s. (c, s, chunk_len a L s)) (starts_of a L)) table),
      None)"
proof (induction table arbitrary: results)
  case Nil
  then show ?case by simp
next
  case (Cons p table)
  obtain c L where p: "p = (c, L)" by (cases p)
  from Cons.prems have "xrange 0 L (chunksize a - overlap a) = Inr (starts_of a L)"
    by (simp add: xrange_def starts_of_def)
  with Cons p show ?case by (simp add: chunk_loop_map)
qed

lemma starts_of_distinct:
  assumes "overlap a < chunksize a"
  shows "distinct (starts_of a L)"
proof -
  have "\<And>i j. i < j \<Longrightarrow> j < length (starts_of a L) \<Longrightarrow> starts_of a L ! i \<noteq> starts_of a L ! j"
  proof -
    fix i j assume ij: "i < j" "j < length (starts_of a L)"
    then have "int i * (chunksize a - overlap a) < int j * (chunksize a - overlap a)"
      using assms by (intro mult_strict_right_mono) simp_all
    moreover from ij have "i < length (starts_of a L)" by simp
    ultimately show "starts_of a L ! i \<noteq> starts_of a L ! j"
      using ij(2) by (simp only: starts_of_nth)
  qed
  then show ?thesis
    by (metis distinct_conv_nth nat_neq_iff)
qed

lemma chrom_windows_distinct:
  assumes "overlap a < chunksize a"
  shows "distinct (map (\<lambda>s. (c, s, chunk_len a L s)) (starts_of a L))"
  using starts_of_distinct[OF assms, of L]
  by (simp add: distinct_map inj_on_def)

lemma all_windows_chrom:
  "w \<in> set (concat (map (\<lambda>(c, L). map (\<lambda>s. (c, s, chunk_len a L s)) (starts_of a L)) table))
   \<Longrightarrow> fst w \<in> fst ` set table"
  by (induction table) auto

lemma all_windows_distinct:
  assumes "overlap a < chunksize a" "distinct (map fst table)"
  shows "distinct (concat (map (\<lambda>(c, L). map (\<lambda>s. (c, s, chunk_len a L s)) (starts_of a L)) table))"
  using assms(2)
proof (induction table)
  case Nil
  then show ?case by simp
next
  case (Cons p table)
  obtain c L where p: "p = (c, L)" by (cases p)
  with Cons.prems have c: "c \<notin> fst ` set table" by simp
  have "set (map (\<lambda>s. (c, s, chunk_len a L s)) (starts_of a L)) \<inter>
        set (concat (map (\<lambda>(c, L). map (\<lambda>s. (c, s, chunk_len a L s)) (starts_of a L)) table)) = {}"
    using c all_windows_chrom[of _ a table] by fastforce
  with Cons p chrom_windows_distinct[OF assms(1), of c L] show ?case by simp
qed

lemma all_windows_dvd:
  assumes "overlap a < chunksize a"
  shows "w \<in> set (concat (map (\<lambda>(c, L). map (\<lambda>s. (c, s, chunk_len a L s)) (starts_of a L)) table))
    \<Longrightarrow> (chunksize a - overlap a) dvd window_start w"
  by (induction table) (auto simp: window_start_def starts_of_set[OF assms])

lemma map_of_chunks_of:
  assumes "distinct (map fst results)" "r \<in> set results" "map_of (fst (snd r)) g = Some fid"
  shows "map_of (chunks_of g results) (fst r) = Some fid"
proof -
  have "(fst r, fid) \<in> set (chunks_of g results)"
    using assms(2,3) by (induction results) (auto simp: chunks_of_Cons chunks_of_def map_filter_simps split: option.splits)
  with chunks_of_distinct[OF assms(1), of g] show ?thesis by simp
qed

text \<open>
  Claim C10. For a valid configuration (\<open>O < C\<close>, and a chromosome-size table whose
  chromosome ids are pairwise different) the planning loop raises nothing and the
  triples \<^verbatim>\<open>(chrom, start, chunksize)\<close> of its windows are pairwise distinct, every start
  being a multiple of \<open>C - O\<close>. Hence the dictionaries of \<^verbatim>\<open>merge_results\<close> keep
  every result: \<^verbatim>\<open>stdout_file_ids\<close> has one entry per window, holding that window's
  log, and the dictionary of a genome holds, under the key of each window, the
  artifact that the window's prediction produced for the genome, with one entry per
  window that has the genome.
\<close>

theorem keys_retained:
  assumes "overlap a < chunksize a" and "distinct (map fst table)"
    and "map fst results = fst (setup_loop a table [])"
    and "\<forall>r \<in> set results. distinct (map fst (fst (snd r)))"
    and "valid_order gord"
  shows "snd (setup_loop a table []) = None
       \<and> distinct (map fst results)
       \<and> (\<forall>r \<in> set results. (chunksize a - overlap a) dvd window_start (fst r))
       \<and> length (stdout_file_ids gord results) = length results
       \<and> (\<forall>r \<in> set results.
             map_of (stdout_file_ids gord results) (fst r) = Some (snd (snd r))
           \<and> (\<forall>e \<in> set (fst (snd r)).
                 map_of (defaultdict_get (gff_chunks_by_genome gord results) (fst e)) (fst r)
                   = Some (snd e)))
       \<and> (\<forall>g. length (defaultdict_get (gff_chunks_by_genome gord results) g)
                 = length (filter (\<lambda>r. g \<in> fst ` set (fst (snd r))) results))"
proof -
  let ?ws = "concat (map (\<lambda>(c, L). map (\<lambda>s. (c, s, chunk_len a L s)) (starts_of a L)) table)"
  have sl: "setup_loop a table [] = (?ws, None)"
    using setup_loop_pos[OF assms(1), of table "[]"] by simp
  then have 1: "snd (setup_loop a table []) = None" by simp
  from sl assms(3) have keys: "map fst results = ?ws" by simp
  have 2: "distinct (map fst results)"
    unfolding keys using assms(1,2) by (rule all_windows_distinct)
  have 3: "\<forall>r \<in> set results. (chunksize a - overlap a) dvd window_start (fst r)"
  proof
    fix r assume "r \<in> set results"
    then have "fst r \<in> set (map fst results)" by simp
    then have "fst r \<in> set ?ws" by (simp only: keys)
    then show "(chunksize a - overlap a) dvd window_start (fst r)"
      by (rule all_windows_dvd[OF assms(1)])
  qed
  have ids: "stdout_file_ids gord results = map (\<lambda>r. (fst r, snd (snd r))) results"
    using 2 by (rule stdout_ids_chunks)
  then have 4: "length (stdout_file_ids gord results) = length results" by simp
  have bg: "\<And>g. defaultdict_get (gff_chunks_by_genome gord results) g = chunks_of g results"
    using assms(5,4) 2 by (rule by_genome_chunks)
  have 5: "\<forall>r \<in> set results.
             map_of (stdout_file_ids gord results) (fst r) = Some (snd (snd r))
           \<and> (\<forall>e \<in> set (fst (snd r)).
                 map_of (defaultdict_get (gff_chunks_by_genome gord results) (fst e)) (fst r)
                   = Some (snd e))"
  proof (intro ballI conjI)
    fix r assume r: "r \<in> set results"
    have "distinct (map fst (map (\<lambda>r. (fst r, snd (snd r))) results))"
      using 2 by (simp add: comp_def)
    moreover have "(fst r, snd (snd r)) \<in> set (map (\<lambda>r. (fst r, snd (snd r))) results)"
      using r by auto
    ultimately show "map_of (stdout_file_ids gord results) (fst r) = Some (snd (snd r))"
      unfolding ids by (rule map_of_is_SomeI)
    fix e assume e: "e \<in> set (fst (snd r))"
    from assms(4) r have "distinct (map fst (fst (snd r)))" by blast
    with e have "map_of (fst (snd r)) (fst e) = Some (snd e)" by simp
    with 2 r show "map_of (defaultdict_get (gff_chunks_by_genome gord results) (fst e)) (fst r)
                   = Some (snd e)"
      unfolding bg by (rule map_of_chunks_of)
  qed
  have 6: "\<forall>g. length (defaultdict_get (gff_chunks_by_genome gord results) g)
                 = length (filter (\<lambda>r. g \<in> fst ` set (fst (snd r))) results)"
  proof
    fix g
    have "length (chunks_of g results) = length (filter (\<lambda>r. g \<in> fst ` set (fst (snd r))) results)"
      by (induction results)
         (auto simp: chunks_of_Cons chunks_of_def map_filter_simps map_of_eq_None_iff
               split: option.splits dest: map_of_SomeD intro: rev_image_eqI)
    then show "length (defaultdict_get (gff_chunks_by_genome gord results) g)
                 = length (filter (\<lambda>r. g \<in> fst ` set (fst (snd r))) results)"
      by (simp only: bg)
  qed
  from 1 2 3 4 5 6 show ?thesis by blast
qed

lemma example5_plan:
  "setup_loop \<lparr>chunksize = 300, overlap = 50, genomes = [''hg38'']\<rparr>
      [(''chr1'', 550), (''chr2'', 300)] [] =
     ([(''chr1'', 0, 300), (''chr1'', 250, 300), (''chr1'', 500, 50),
       (''chr2'', 0, 300), (''chr2'', 250, 50)], None)"
  by (simp add: xrange_def xrange_up.simps chunk_len_def)

theorem keys_retained_witness:
  "setup_loop \<lparr>chunksize = 300, overlap = 50, genomes = [''hg38'']\<rparr>
      [(''chr1'', 550), (''chr2'', 300)] [] =
     ([(''chr1'', 0, 300), (''chr1'', 250, 300), (''chr1'', 500, 50),
       (''chr2'', 0, 300), (''chr2'', 250, 50)], None)
   \<and> distinct [(''chr1'', 0::int, 300::int), (''chr1'', 250, 300), (''chr1'', 500, 50),
       (''chr2'', 0, 300), (''chr2'', 250, 50)]
   \<and> (250::int) dvd window_start (''chr2'', 250, 50)
   \<and> length (stdout_file_ids (\<lambda>ks. ks)
        [((''chr1'', 0, 300), [(''hg38'', 1)], 0), ((''chr1'', 250, 300), [(''hg38'', 3)], 2),
         ((''chr1'', 500, 50), [(''hg38'', 5)], 4), ((''chr2'', 0, 300), [(''hg38'', 7)], 6),
         ((''chr2'', 250, 50), [(''hg38'', 9)], 8)]) = 5
   \<and> map_of (stdout_file_ids (\<lambda>ks. ks)
        [((''chr1'', 0, 300), [(''hg38'', 1)], 0), ((''chr1'', 250, 300), [(''hg38'', 3)], 2),
         ((''chr1'', 500, 50), [(''hg38'', 5)], 4), ((''chr2'', 0, 300), [(''hg38'', 7)], 6),
         ((''chr2'', 250, 50), [(''hg38'', 9)], 8)]) (''chr2'', 0, 300) = Some 6
   \<and> map_of (defaultdict_get (gff_chunks_by_genome (\<lambda>ks. ks)
        [((''chr1'', 0, 300), [(''hg38'', 1)], 0), ((''chr1'', 250, 300), [(''hg38'', 3)], 2),
         ((''chr1'', 500, 50), [(''hg38'', 5)], 4), ((''chr2'', 0, 300), [(''hg38'', 7)], 6),
         ((''chr2'', 250, 50), [(''hg38'', 9)], 8)]) ''hg38'') (''chr2'', 0, 300) = Some 7
   \<and> length (defaultdict_get (gff_chunks_by_genome (\<lambda>ks. ks)
        [((''chr1'', 0, 300), [(''hg38'', 1)], 0), ((''chr1'', 250, 300), [(''hg38'', 3)], 2),
         ((''chr1'', 500, 50), [(''hg38'', 5)], 4), ((''chr2'', 0, 300), [(''hg38'', 7)], 6),
         ((''chr2'', 250, 50), [(''hg38'', 9)], 8)]) ''hg38'') = 5"
proof -
  let ?a = "\<lparr>chunksize = 300, overlap = 50, genomes = [''hg38'']\<rparr>"
  let ?table = "[(''chr1'', 550::int), (''chr2'', 300)]"
  let ?results = "[((''chr1'', 0::int, 300::int), [(''hg38'', 1::nat)], 0::nat),
         ((''chr1'', 250, 300), [(''hg38'', 3)], 2),
         ((''chr1'', 500, 50), [(''hg38'', 5)], 4), ((''chr2'', 0, 300), [(''hg38'', 7)], 6),
         ((''chr2'', 250, 50), [(''hg38'', 9)], 8)]"
  let ?r = "((''chr2'', 0::int, 300::int), [(''hg38'', 7::nat)], 6::nat)"
  have h1: "overlap ?a < chunksize ?a" by simp
  have h2: "distinct (map fst ?table)" by simp
  have h3: "map fst ?results = fst (setup_loop ?a ?table [])"
    unfolding example5_plan by simp
  have h4: "\<forall>r \<in> set ?results. distinct (map fst (fst (snd r)))" by simp
  note k = keys_retained[OF h1 h2 h3 h4 valid_order_id]
  from k have "distinct (map fst ?results)" by blast
  then have c2: "distinct [(''chr1'', 0::int, 300::int), (''chr1'', 250, 300), (''chr1'', 500, 50),
       (''chr2'', 0, 300), (''chr2'', 250, 50)]" by simp
  from k have "\<forall>r \<in> set ?results. (chunksize ?a - overlap ?a) dvd window_start (fst r)"
    by blast
  then have "(chunksize ?a - overlap ?a) dvd window_start (fst ((''chr2'', 250::int, 50::int), [(''hg38'', 9::nat)], 8::nat))"
    by (rule bspec) simp
  then have c3: "(250::int) dvd window_start (''chr2'', 250, 50)" by simp
  from k have "length (stdout_file_ids (\<lambda>ks. ks) ?results) = length ?results" by blast
  then have c4: "length (stdout_file_ids (\<lambda>ks. ks) ?results) = 5" by simp
  from k have all: "\<forall>r \<in> set ?results.
             map_of (stdout_file_ids (\<lambda>ks. ks) ?results) (fst r) = Some (snd (snd r))
           \<and> (\<forall>e \<in> set (fst (snd r)).
                 map_of (defaultdict_get (gff_chunks_by_genome (\<lambda>ks. ks) ?results) (fst e)) (fst r)
                   = Some (snd e))"
    by blast
  have "?r \<in> set ?results" by simp
  with all have r: "map_of (stdout_file_ids (\<lambda>ks. ks) ?results) (fst ?r) = Some (snd (snd ?r))
           \<and> (\<forall>e \<in> set (fst (snd ?r)).
                 map_of (defaultdict_get (gff_chunks_by_genome (\<lambda>ks. ks) ?results) (fst e)) (fst ?r)
                   = Some (snd e))"
    by (rule bspec)
  then have c5: "map_of (stdout_file_ids (\<lambda>ks. ks) ?results) (''chr2'', 0, 300) = Some 6"
    by simp
  from r have c6: "map_of (defaultdict_get (gff_chunks_by_genome (\<lambda>ks. ks) ?results) ''hg38'')
           (''chr2'', 0, 300) = Some 7"
    by simp
  from k have "\<forall>g. length (defaultdict_get (gff_chunks_by_genome (\<lambda>ks. ks) ?results) g)
                 = length (filter (\<lambda>r. g \<in> fst ` set (fst (snd r))) ?results)"
    by blast
  then have "length (defaultdict_get (gff_chunks_by_genome (\<lambda>ks. ks) ?results) ''hg38'')
                 = length (filter (\<lambda>r. ''hg38'' \<in> fst ` set (fst (snd r))) ?results)"
    by (rule spec)
  then have c7: "length (defaultdict_get (gff_chunks_by_genome (\<lambda>ks. ks) ?results) ''hg38'') = 5"
    by simp
  from example5_plan c2 c3 c4 c5 c6 c7 show ?thesis by blast
qed

section \<open>The output of the prediction task\<close>

lemma set_dict_set: "set (dict_set d k v) \<subseteq> insert (k, v) (set d)"
  by (induction d) (auto simp: dict_set_def)

lemma stored_step:
  assumes "stored cwd store d" "cwd (g @ ''.cgp.gff'') = Some content"
  shows "stored cwd (store @ [content]) (dict_set d g (length store))"
  unfolding stored_def
proof
  fix e assume "e \<in> set (dict_set d g (length store))"
  with set_dict_set[of d g "length store"] have "e = (g, length store) \<or> e \<in> set d" by auto
  then show "snd e < length (store @ [content])
           \<and> cwd (fst e @ ''.cgp.gff'') = Some ((store @ [content]) ! snd e)"
  proof
    assume "e = (g, length store)"
    with assms(2) show ?thesis by simp
  next
    assume "e \<in> set d"
    with assms(1) have "snd e < length store" "cwd (fst e @ ''.cgp.gff'') = Some (store ! snd e)"
      by (simp_all add: stored_def)
    then show ?thesis by (simp add: nth_append)
  qed
qed

lemma write_gffs_inv:
  "write_gffs cwd gs store d = Inr (d', store') \<Longrightarrow> stored cwd store d \<Longrightarrow>
   distinct (map fst d) \<Longrightarrow>
   fst ` set d' = fst ` set d \<union> set gs \<and> distinct (map fst d') \<and> stored cwd store' d'"
proof (induction gs arbitrary: store d)
  case Nil
  then show ?case by simp
next
  case (Cons g gs)
  from Cons.prems(1) obtain content where c: "cwd (g @ ''.cgp.gff'') = Some content"
    by (auto split: option.splits)
  with Cons.prems(1)
  have w: "write_gffs cwd gs (store @ [content]) (dict_set d g (length store)) = Inr (d', store')"
    by (simp add: writeGlobalFile_def)
  have "fst ` set d' = fst ` set (dict_set d g (length store)) \<union> set gs
        \<and> distinct (map fst d') \<and> stored cwd store' d'"
    using w stored_step[OF Cons.prems(2) c] distinct_dict_set[OF Cons.prems(3)]
    by (rule Cons.IH)
  then show ?case by (auto simp: keys_dict_set)
qed

lemma write_gffs_total:
  "\<forall>g \<in> set gs. cwd (g @ ''.cgp.gff'') \<noteq> None \<Longrightarrow>
   \<exists>d' store'. write_gffs cwd gs store d = Inr (d', store')"
  by (induction gs arbitrary: store d) (auto simp: writeGlobalFile_def)

text \<open>
  Claim C8. Whenever the prediction task returns, the key set of its dictionary is
  exactly the set of configured target genomes, and every genome is mapped to the
  artifact that holds the content of its result file; a genome whose file is empty is
  mapped to an empty artifact and is not missing. The task returns whenever the
  external program succeeds and has written the file of every genome.
\<close>

theorem cgp_keys:
  "(aug = Inr (cwd, out) \<and> (\<forall>g \<in> set (genomes a). cwd (g @ ''.cgp.gff'') \<noteq> None) \<longrightarrow>
      (\<exists>d sid store'. cgp a aug store = Inr ((d, sid), store')))
   \<and> (cgp a aug store = Inr ((d, sid), store') \<longrightarrow>
        fst ` set d = set (genomes a) \<and> distinct (map fst d)
        \<and> (\<forall>g \<in> set (genomes a). \<exists>fid files log content. aug = Inr (files, log)
               \<and> map_of d g = Some fid
               \<and> files (g @ ''.cgp.gff'') = Some content
               \<and> readGlobalFile store' fid = Inr content))"
proof (intro conjI impI)
  assume "aug = Inr (cwd, out) \<and> (\<forall>g \<in> set (genomes a). cwd (g @ ''.cgp.gff'') \<noteq> None)"
  then have aug: "aug = Inr (cwd, out)"
    and ex: "\<forall>g \<in> set (genomes a). cwd (g @ ''.cgp.gff'') \<noteq> None" by simp_all
  from write_gffs_total[OF ex, of "store @ [out]" "[]"]
  obtain d' store' where "write_gffs cwd (genomes a) (store @ [out]) [] = Inr (d', store')"
    by blast
  with aug show "\<exists>d sid store'. cgp a aug store = Inr ((d, sid), store')"
    by (simp add: cgp_def writeGlobalFile_def)
next
  assume ok: "cgp a aug store = Inr ((d, sid), store')"
  then obtain files log where aug: "aug = Inr (files, log)"
    by (cases aug) (auto simp: cgp_def)
  with ok have w: "write_gffs files (genomes a) (store @ [log]) [] = Inr (d, store')"
    by (auto simp: cgp_def writeGlobalFile_def split: sum.splits)
  have st: "stored files (store @ [log]) []" by (simp add: stored_def)
  have inv: "fst ` set d = set (genomes a) \<and> distinct (map fst d) \<and> stored files store' d"
    using write_gffs_inv[OF w st] by simp
  then show "fst ` set d = set (genomes a)" and dist: "distinct (map fst d)" by simp_all
  show "\<forall>g \<in> set (genomes a). \<exists>fid files log content. aug = Inr (files, log)
               \<and> map_of d g = Some fid
               \<and> files (g @ ''.cgp.gff'') = Some content
               \<and> readGlobalFile store' fid = Inr content"
  proof
    fix g assume "g \<in> set (genomes a)"
    with inv have "g \<in> fst ` set d" by simp
    then obtain fid where e: "(g, fid) \<in> set d" by auto
    with dist have m: "map_of d g = Some fid" by simp
    from inv e have "fid < length store'" "files (g @ ''.cgp.gff'') = Some (store' ! fid)"
      by (auto simp: stored_def)
    then have "files (g @ ''.cgp.gff'') = Some (store' ! fid)
               \<and> readGlobalFile store' fid = Inr (store' ! fid)"
      by (simp add: readGlobalFile_def)
    with aug m show "\<exists>fid files log content. aug = Inr (files, log)
               \<and> map_of d g = Some fid
               \<and> files (g @ ''.cgp.gff'') = Some content
               \<and> readGlobalFile store' fid = Inr content"
      by blast
  qed
qed

theorem cgp_keys_witness:
  "cgp \<lparr>chunksize = 300, overlap = 50, genomes = [''hg38'', ''mm10'']\<rparr>
       (Inr ([''hg38.cgp.gff'' \<mapsto> ''gene'', ''mm10.cgp.gff'' \<mapsto> ''''], ''log'')) [] =
     Inr (([(''hg38'', 1), (''mm10'', 2)], 0), [''log'', ''gene'', ''''])
   \<and> fst ` set [(''hg38'', 1::nat), (''mm10'', 2)] = set [''hg38'', ''mm10'']
   \<and> map_of [(''hg38'', 1::nat), (''mm10'', 2)] ''mm10'' = Some 2
   \<and> readGlobalFile [''log'', ''gene'', ''''] 2 = Inr ''''"
proof -
  let ?a = "\<lparr>chunksize = 300, overlap = 50, genomes = [''hg38'', ''mm10'']\<rparr>"
  let ?cwd = "[''hg38.cgp.gff'' \<mapsto> ''gene'', ''mm10.cgp.gff'' \<mapsto> '''']"
  let ?aug = "Inr (?cwd, ''log'') :: error + ((string \<rightharpoonup> string) \<times> string)"
  let ?d = "[(''hg38'', 1::nat), (''mm10'', 2)]"
  let ?store = "[''log'', ''gene'', '''']"
  note k = cgp_keys[of ?aug ?cwd "''log''" ?a "[]" ?d 0 ?store]
  have files: "\<forall>g \<in> set (genomes ?a). ?cwd (g @ ''.cgp.gff'') \<noteq> None" by simp
  with k have "\<exists>d sid store'. cgp ?a ?aug [] = Inr ((d, sid), store')" by blast
  have ev: "cgp ?a ?aug [] = Inr ((?d, 0), ?store)"
    by (simp add: cgp_def writeGlobalFile_def dict_set_def)
  with k have keys: "fst ` set ?d = set (genomes ?a)"
    and all: "\<forall>g \<in> set (genomes ?a). \<exists>fid files log content. ?aug = Inr (files, log)
               \<and> map_of ?d g = Some fid
               \<and> files (g @ ''.cgp.gff'') = Some content
               \<and> readGlobalFile ?store fid = Inr content"
    by blast+
  have "''mm10'' \<in> set (genomes ?a)" by simp
  with all have "\<exists>fid files log content. ?aug = Inr (files, log)
               \<and> map_of ?d ''mm10'' = Some fid
               \<and> files (''mm10'' @ ''.cgp.gff'') = Some content
               \<and> readGlobalFile ?store fid = Inr content"
    by (rule bspec)
  then have m: "map_of ?d ''mm10'' = Some 2 \<and> readGlobalFile ?store 2 = Inr ''''"
    by auto
  from keys have keys': "fst ` set ?d = set [''hg38'', ''mm10'']" by simp
  from ev keys' m show ?thesis by blast
qed

section \<open>The merge stage waits for every window chain\<close>

lemma exec_gated:
  assumes "gated G s" "exec G s ev = Some s'"
  shows "gated G s'"
proof (cases ev)
  case (Start j)
  with assms(2) have e: "eligible G s j" and s': "s' = s\<lparr>started := insert j (started s)\<rparr>"
    by (auto split: if_splits)
  from assms(1) e show ?thesis
    unfolding s' gated_def eligible_def by auto
next
  case (Resolve j)
  with assms(2) have j: "j \<in> started s" and s': "s' = s\<lparr>resolved := insert j (resolved s)\<rparr>"
    by (auto split: if_splits)
  from assms(1) j show ?thesis
    unfolding s' gated_def by fastforce
qed

lemma run_gated:
  "gated G s \<Longrightarrow> run_jobs G s evs = Some s' \<Longrightarrow> gated G s'"
proof (induction evs arbitrary: s)
  case Nil
  then show ?case by simp
next
  case (Cons ev evs)
  from Cons.prems(2) obtain s1 where s1: "exec G s ev = Some s1" "run_jobs G s1 evs = Some s'"
    by (auto split: option.splits)
  from exec_gated[OF Cons.prems(1) s1(1)] s1(2) show ?case by (rule Cons.IH)
qed

lemma gated_after_setup: "gated G after_setup"
  by (simp add: gated_def after_setup_def)

lemma setup_jobs_merge: "(MergeResults, Setup # map Cgp ws) \<in> set (setup_jobs ws)"
  by (simp add: setup_jobs_def)

lemma setup_jobs_cgp: "w \<in> set ws \<Longrightarrow> (Cgp w, [Hal2maf w]) \<in> set (setup_jobs ws)"
  by (auto simp: setup_jobs_def chain_def)

text \<open>
  Claim C6. In the graph that \<^verbatim>\<open>setup\<close> builds, the merge job is declared to wait
  for the prediction job of every window, and in every run of the scheduler, whatever
  the interleaving of the window chains, the merge job is started only after the
  extraction job and the prediction job of every window have resolved.
\<close>

theorem fan_in_gating:
  assumes "setup_fn a table = Inr G" and "run_jobs G after_setup evs = Some s"
    and "MergeResults \<in> started s"
  shows "(\<exists>deps. (MergeResults, deps) \<in> set G
            \<and> (\<forall>w \<in> set (fst (setup_loop a table [])). Cgp w \<in> set deps))
       \<and> (\<forall>w \<in> set (fst (setup_loop a table [])). Hal2maf w \<in> resolved s \<and> Cgp w \<in> resolved s)"
proof -
  let ?ws = "fst (setup_loop a table [])"
  from assms(1) have G: "G = setup_jobs ?ws"
    by (auto simp: setup_fn_def split: prod.splits option.splits)
  have inv: "gated G s"
    using gated_after_setup assms(2) by (rule run_gated)
  have m: "(MergeResults, Setup # map Cgp ?ws) \<in> set G"
    unfolding G by (rule setup_jobs_merge)
  then have 1: "\<exists>deps. (MergeResults, deps) \<in> set G \<and> (\<forall>w \<in> set ?ws. Cgp w \<in> set deps)"
    by (intro exI[of _ "Setup # map Cgp ?ws"]) simp
  from inv assms(3) m have md: "set (Setup # map Cgp ?ws) \<subseteq> resolved s"
    unfolding gated_def by fastforce
  have 2: "\<forall>w \<in> set ?ws. Hal2maf w \<in> resolved s \<and> Cgp w \<in> resolved s"
  proof
    fix w assume w: "w \<in> set ?ws"
    with md have c: "Cgp w \<in> resolved s" by auto
    with inv have "Cgp w \<in> started s" unfolding gated_def by blast
    moreover have "(Cgp w, [Hal2maf w]) \<in> set G"
      unfolding G using w by (rule setup_jobs_cgp)
    ultimately have "set [Hal2maf w] \<subseteq> resolved s"
      using inv unfolding gated_def by fastforce
    with c show "Hal2maf w \<in> resolved s \<and> Cgp w \<in> resolved s" by simp
  qed
  from 1 2 show ?thesis by blast
qed

lemma example_graph:
  "setup_fn \<lparr>chunksize = 300, overlap = 50, genomes = [''hg38'']\<rparr> [(''chr1'', 550)] =
     Inr (setup_jobs [(''chr1'', 0, 300), (''chr1'', 250, 300), (''chr1'', 500, 50)])"
  unfolding setup_fn_def example_results_plan by simp

theorem fan_in_gating_witness:
  "setup_fn \<lparr>chunksize = 300, overlap = 50, genomes = [''hg38'']\<rparr> [(''chr1'', 550)] =
     Inr (setup_jobs [(''chr1'', 0, 300), (''chr1'', 250, 300), (''chr1'', 500, 50)])
   \<and> (\<exists>s. run_jobs (setup_jobs [(''chr1'', 0, 300), (''chr1'', 250, 300), (''chr1'', 500, 50)])
            after_setup
            [Start (Hal2maf (''chr1'', 0, 300)), Start (Hal2maf (''chr1'', 250, 300)),
             Resolve (Hal2maf (''chr1'', 250, 300)), Start (Cgp (''chr1'', 250, 300)),
             Resolve (Hal2maf (''chr1'', 0, 300)), Start (Hal2maf (''chr1'', 500, 50)),
             Start (Cgp (''chr1'', 0, 300)), Resolve (Cgp (''chr1'', 250, 300)),
             Resolve (Hal2maf (''chr1'', 500, 50)), Start (Cgp (''chr1'', 500, 50)),
             Resolve (Cgp (''chr1'', 0, 300)), Resolve (Cgp (''chr1'', 500, 50)),
             Start MergeResults] = Some s
          \<and> MergeResults \<in> started s
          \<and> Hal2maf (''chr1'', 500, 50) \<in> resolved s
          \<and> Cgp (''chr1'', 500, 50) \<in> resolved s)
   \<and> run_jobs (setup_jobs [(''chr1'', 0, 300), (''chr1'', 250, 300), (''chr1'', 500, 50)])
            after_setup
            [Start (Hal2maf (''chr1'', 0, 300)), Start (Hal2maf (''chr1'', 250, 300)),
             Resolve (Hal2maf (''chr1'', 250, 300)), Start (Cgp (''chr1'', 250, 300)),
             Resolve (Hal2maf (''chr1'', 0, 300)), Start (Hal2maf (''chr1'', 500, 50)),
             Start (Cgp (''chr1'', 0, 300)), Resolve (Cgp (''chr1'', 250, 300)),
             Resolve (Hal2maf (''chr1'', 500, 50)), Start (Cgp (''chr1'', 500, 50)),
             Resolve (Cgp (''chr1'', 0, 300)),
             Start MergeResults] = None"
proof -
  let ?a = "\<lparr>chunksize = 300, overlap = 50, genomes = [''hg38'']\<rparr>"
  let ?table = "[(''chr1'', 550::int)]"
  let ?G = "setup_jobs [(''chr1'', 0, 300), (''chr1'', 250, 300), (''chr1'', 500, 50)]"
  let ?evs = "[Start (Hal2maf (''chr1'', 0, 300)), Start (Hal2maf (''chr1'', 250, 300)),
             Resolve (Hal2maf (''chr1'', 250, 300)), Start (Cgp (''chr1'', 250, 300)),
             Resolve (Hal2maf (''chr1'', 0, 300)), Start (Hal2maf (''chr1'', 500, 50)),
             Start (Cgp (''chr1'', 0, 300)), Resolve (Cgp (''chr1'', 250, 300)),
             Resolve (Hal2maf (''chr1'', 500, 50)), Start (Cgp (''chr1'', 500, 50)),
             Resolve (Cgp (''chr1'', 0, 300)), Resolve (Cgp (''chr1'', 500, 50)),
             Start MergeResults]"
  have "\<exists>s. run_jobs ?G after_setup ?evs = Some s \<and> MergeResults \<in> started s"
    by (simp add: setup_jobs_def chain_def eligible_def after_setup_def)
  then obtain s where s: "run_jobs ?G after_setup ?evs = Some s" "MergeResults \<in> started s"
    by blast
  from fan_in_gating[OF example_graph s]
  have "\<forall>w \<in> set (fst (setup_loop ?a ?table [])). Hal2maf w \<in> resolved s \<and> Cgp w \<in> resolved s"
    by blast
  then have "Hal2maf (''chr1'', 500, 50) \<in> resolved s \<and> Cgp (''chr1'', 500, 50) \<in> resolved s"
    unfolding example_results_plan by simp
  with s have 2: "\<exists>s. run_jobs ?G after_setup ?evs = Some s \<and> MergeResults \<in> started s
          \<and> Hal2maf (''chr1'', 500, 50) \<in> resolved s \<and> Cgp (''chr1'', 500, 50) \<in> resolved s"
    by blast
  have 3: "run_jobs ?G after_setup
            [Start (Hal2maf (''chr1'', 0, 300)), Start (Hal2maf (''chr1'', 250, 300)),
             Resolve (Hal2maf (''chr1'', 250, 300)), Start (Cgp (''chr1'', 250, 300)),
             Resolve (Hal2maf (''chr1'', 0, 300)), Start (Hal2maf (''chr1'', 500, 50)),
             Start (Cgp (''chr1'', 0, 300)), Resolve (Cgp (''chr1'', 250, 300)),
             Resolve (Hal2maf (''chr1'', 500, 50)), Start (Cgp (''chr1'', 500, 50)),
             Resolve (Cgp (''chr1'', 0, 300)),
             Start MergeResults] = None"
    by (simp add: setup_jobs_def chain_def eligible_def after_setup_def)
  from example_graph 2 3 show ?thesis by blast
qed

end
